theory Spec2Isabelle
  imports Main
begin

section \<open>The paired FASTQ filter of \<^verbatim>\<open>src/filter.c\<close>\<close>

text \<open>
  A shallow embedding of \<^verbatim>\<open>filter.c\<close>. A C string is the list of its characters
  before the terminating NUL; the input streams are text (no NUL byte), given as the
  characters that remain to be read. A pointer that may be \<^verbatim>\<open>NULL\<close> is an
  \<open>option\<close>. An operation whose behaviour C leaves undefined is a value of \<open>ub\<close>.
  An \<^verbatim>\<open>int\<close> has 32 bits and its arithmetic wraps around.
\<close>

subsection \<open>Constants, strings and buffers\<close>

definition block_size :: nat where
  "block_size = 2048"

definition unsafe_block_size :: nat where
  "unsafe_block_size = 4096"

abbreviation newline :: char where
  "newline \<equiv> CHR 0x0A"

datatype ub = Null_string | Null_stream | Out_of_bounds

text \<open>
  A line as the readers return it: the string and the size in bytes of the heap block
  that holds it.
\<close>

record line =
  chars :: string
  alloc :: nat

definition strlen :: "line \<Rightarrow> nat" where
  "strlen l = length (chars l)"

text \<open>
  The conversion of an \<^verbatim>\<open>int\<close> to \<^verbatim>\<open>size_t\<close> that C applies when it compares
  \<^verbatim>\<open>strlen(s) > i\<close>: the value modulo \<open>2^64\<close>.
\<close>

definition size_t_of_int :: "int \<Rightarrow> nat" where
  "size_t_of_int i = nat (i mod 2 ^ 64)"

text \<open>
  The value that a 32-bit \<^verbatim>\<open>int\<close> holds after an operation whose exact result is
  \<open>i\<close>: the result wraps around in two's complement.
\<close>

definition c_int :: "int \<Rightarrow> int" where
  "c_int i = (i + 2 ^ 31) mod 2 ^ 32 - 2 ^ 31"

subsection \<open>Streams and the two line readers\<close>

text \<open>
  \<^verbatim>\<open>gzFile\<close>: \<open>None\<close> when \<^verbatim>\<open>gzopen\<close> failed, otherwise the unread text.
  \<^verbatim>\<open>FILE*\<close> opened for writing: \<open>None\<close> when \<^verbatim>\<open>fopen\<close> failed, otherwise the
  text written so far.
\<close>

type_synonym gzFile = "string option"
type_synonym FILE = "string option"

text \<open>
  What \<^verbatim>\<open>gzgets\<close> transfers when there is room for \<open>n\<close> characters: characters up to
  and including the first newline, at most \<open>n\<close> of them.
\<close>

fun gets_chunk :: "nat \<Rightarrow> string \<Rightarrow> string" where
  "gets_chunk 0 s = []"
| "gets_chunk (Suc n) [] = []"
| "gets_chunk (Suc n) (c # cs) = (if c = newline then [c] else c # gets_chunk n cs)"

text \<open>
  \<^verbatim>\<open>gzgets(f, buf, len)\<close> of zlib: \<^verbatim>\<open>NULL\<close> for a null file and when no character
  could be read, otherwise the chunk of at most \<open>len - 1\<close> characters.
\<close>

definition gzgets :: "gzFile \<Rightarrow> nat \<Rightarrow> string option \<times> gzFile" where
  "gzgets f len =
     (case f of
        None \<Rightarrow> (None, None)
      | Some s \<Rightarrow>
          (let got = gets_chunk (len - 1) s
           in if got = [] then (None, Some s)
              else (Some got, Some (drop (length got) s))))"

definition readln_unsafe :: "gzFile \<Rightarrow> line \<times> gzFile" where
  "readln_unsafe f =
     (case gzgets f unsafe_block_size of
        (Some got, f') \<Rightarrow> (\<lparr>chars = got, alloc = unsafe_block_size\<rparr>, f')
      | (None, f') \<Rightarrow> (\<lparr>chars = [], alloc = unsafe_block_size\<rparr>, f'))"

definition unread :: "gzFile \<Rightarrow> nat" where
  "unread f = (case f of None \<Rightarrow> 0 | Some s \<Rightarrow> length s)"

lemma gets_chunk_length: "length (gets_chunk n s) \<le> length s"
  by (induction n s rule: gets_chunk.induct) auto

lemma gzgets_Some_unread:
  assumes "gzgets f len = (Some got, f')"
  shows "unread f' < unread f"
proof (cases f)
  case None
  with assms show ?thesis by (simp add: gzgets_def)
next
  case (Some s)
  with assms have g: "got = gets_chunk (len - 1) s" "got \<noteq> []" "f' = Some (drop (length got) s)"
    by (auto simp: gzgets_def Let_def split: if_splits)
  have "length got \<le> length s" using g(1) gets_chunk_length by simp
  moreover have "0 < length got" using g(2) by simp
  moreover have "0 < length s" using calculation by linarith
  ultimately show ?thesis using Some g(3) by (simp add: unread_def)
qed

text \<open>
  The loop of \<^verbatim>\<open>readln\<close>: \<open>ln\<close> is the string collected so far, \<open>bs\<close> the value of
  \<^verbatim>\<open>_block_size\<close>. Each round enlarges the block to \<open>bs + block_size + 1\<close> bytes and
  appends one chunk.
\<close>

function readln_loop :: "gzFile \<Rightarrow> string \<Rightarrow> nat \<Rightarrow> line \<times> gzFile" where
  "readln_loop f ln bs =
     (case gzgets f block_size of
        (Some part, f') \<Rightarrow>
          (if last (ln @ part) \<noteq> newline
           then readln_loop f' (ln @ part) (bs + block_size)
           else (\<lparr>chars = ln @ part, alloc = bs + block_size + 1\<rparr>, f'))
      | (None, f') \<Rightarrow> (\<lparr>chars = ln, alloc = bs + block_size + 1\<rparr>, f'))"
  by pat_completeness auto
termination
  by (relation "measure (\<lambda>(f, ln, bs). unread f)") (auto dest: gzgets_Some_unread [OF sym])

declare readln_loop.simps [simp del]

definition readln :: "gzFile \<Rightarrow> line \<times> gzFile" where
  "readln f = readln_loop f [] block_size"

lemma readln_loop_unread:
  "readln_loop f ln bs = (l, f') \<Longrightarrow>
     unread f' \<le> unread f \<and> (chars l \<noteq> ln \<longrightarrow> unread f' < unread f)"
proof (induction f ln bs arbitrary: l f' rule: readln_loop.induct)
  case (1 f ln bs)
  obtain r g where gz: "gzgets f block_size = (r, g)" by (cases "gzgets f block_size")
  show ?case
  proof (cases r)
    case None
    then have "g = f" using gz by (auto simp: gzgets_def Let_def split: option.splits if_splits)
    with None gz "1.prems" show ?thesis by (auto simp: readln_loop.simps [of f])
  next
    case (Some part)
    have sh: "unread g < unread f" using gz Some gzgets_Some_unread by simp
    show ?thesis
    proof (cases "last (ln @ part) \<noteq> newline")
      case True
      then have "readln_loop g (ln @ part) (bs + block_size) = (l, f')"
        using "1.prems" gz Some by (simp add: readln_loop.simps [of f])
      from "1.IH" [OF gz [symmetric] Some True this] sh show ?thesis by simp
    next
      case False
      then have "f' = g" using "1.prems" gz Some by (simp add: readln_loop.simps [of f])
      with sh show ?thesis by simp
    qed
  qed
qed

subsection \<open>Tokens and the tile id\<close>

text \<open>
  One call of \<^verbatim>\<open>strtok\<close>: \<open>s\<close> is the text the call scans (the string passed, or
  the rest saved by the call before), and the result is the token (\<open>None\<close> for
  \<^verbatim>\<open>NULL\<close>) with the rest saved for the next call. Leading delimiters are skipped,
  so a token is never empty.
\<close>

definition strtok :: "string \<Rightarrow> string \<Rightarrow> string option \<times> string" where
  "strtok s delim =
     (let s' = dropWhile (\<lambda>c. c \<in> set delim) s
      in if s' = [] then (None, [])
         else (Some (takeWhile (\<lambda>c. c \<notin> set delim) s'),
               drop 1 (dropWhile (\<lambda>c. c \<notin> set delim) s')))"

definition get_tile_id :: "string \<Rightarrow> string option" where
  "get_tile_id fastq_header =
     fst (((\<lambda>(field, rest). strtok rest '':'') ^^ 4) (strtok fastq_header '':''))"

subsection \<open>Global configuration and FASTQ records\<close>

datatype read_fn = Readln | Readln_unsafe
datatype check_fn = Std_check_read | Tile_check_read
datatype include_fn = Std_include | Trim_include_r1 | Trim_include_r2

record globals =
  threshold :: int
  quiet :: bool
  trim_r1 :: int
  trim_r2 :: int
  tiles_to_remove :: "string list"
  read_func :: read_fn
  check_func :: check_fn
  include_func_r1 :: include_fn
  include_func_r2 :: include_fn

record fastq =
  header :: line
  seq :: line
  strand :: line
  qual :: line

subsection \<open>The inclusion predicates\<close>

definition std_check_read :: "globals \<Rightarrow> fastq \<Rightarrow> fastq \<Rightarrow> bool" where
  "std_check_read g r1 r2 =
     (if strlen (seq r1) > size_t_of_int (threshold g) \<and>
         strlen (seq r2) > size_t_of_int (threshold g)
      then True else False)"

text \<open>
  The \<^verbatim>\<open>while (comp != NULL)\<close> loop of \<^verbatim>\<open>tile_check_read\<close> over the null-terminated
  array; \<^verbatim>\<open>strcmp\<close> with a null \<open>tile_id\<close> is undefined.
\<close>

fun tile_scan :: "string list \<Rightarrow> string option \<Rightarrow> bool \<Rightarrow> ub + bool" where
  "tile_scan [] tile_id ret_val = Inr ret_val"
| "tile_scan (comp0 # rest) tile_id ret_val =
     (case tile_id of
        None \<Rightarrow> Inl Null_string
      | Some t \<Rightarrow> tile_scan rest tile_id (if comp0 = t then False else ret_val))"

definition tile_check_read :: "globals \<Rightarrow> fastq \<Rightarrow> fastq \<Rightarrow> ub + bool" where
  "tile_check_read g r1 r2 =
     (if std_check_read g r1 r2 = False then Inr False
      else tile_scan (tiles_to_remove g) (get_tile_id (chars (header r1))) True)"

definition call_check_func :: "globals \<Rightarrow> fastq \<Rightarrow> fastq \<Rightarrow> ub + bool" where
  "call_check_func g r1 r2 =
     (case check_func g of
        Std_check_read \<Rightarrow> Inr (std_check_read g r1 r2)
      | Tile_check_read \<Rightarrow> tile_check_read g r1 r2)"

text \<open>
  \<^verbatim>\<open>build_remove_tiles\<close>: the tokens of the \<^verbatim>\<open>--remove_tiles\<close> argument between
  commas, in order; nothing is built without the argument.
\<close>

function strtok_fields :: "string \<Rightarrow> string \<Rightarrow> string list" where
  "strtok_fields s delim =
     (case strtok s delim of
        (None, rest) \<Rightarrow> []
      | (Some field, rest) \<Rightarrow> field # strtok_fields rest delim)"
  by pat_completeness auto
termination
proof (relation "measure (\<lambda>(s, delim). length s)")
  show "wf (measure (\<lambda>(s, delim). length s))" by simp
next
  fix s delim :: string and x rest field
  assume "(x, rest) = strtok s delim" and "x = Some field"
  then have r: "rest = drop 1 (dropWhile (\<lambda>c. c \<notin> set delim) (dropWhile (\<lambda>c. c \<in> set delim) s))"
    and ne: "dropWhile (\<lambda>c. c \<in> set delim) s \<noteq> []"
    by (auto simp: strtok_def Let_def split: if_splits)
  have "length rest \<le> length (dropWhile (\<lambda>c. c \<in> set delim) s) - 1"
    using r length_dropWhile_le [of "\<lambda>c. c \<notin> set delim" "dropWhile (\<lambda>c. c \<in> set delim) s"]
    by simp
  moreover have "0 < length (dropWhile (\<lambda>c. c \<in> set delim) s)" using ne by simp
  moreover have "length (dropWhile (\<lambda>c. c \<in> set delim) s) \<le> length s"
    by (rule length_dropWhile_le)
  ultimately have "length rest < length s" by linarith
  then show "((rest, delim), (s, delim)) \<in> measure (\<lambda>(s, delim). length s)"
    by simp
qed

declare strtok_fields.simps [simp del]

definition build_remove_tiles :: "string option \<Rightarrow> string list option" where
  "build_remove_tiles remove_tiles =
     (case remove_tiles of
        None \<Rightarrow> None
      | Some rm_tiles \<Rightarrow> Some (strtok_fields rm_tiles '',''))"

subsection \<open>Writing a record\<close>

definition then_ub :: "ub + 'a \<Rightarrow> ('a \<Rightarrow> ub + 'b) \<Rightarrow> ub + 'b" where
  "then_ub r k = (case r of Inl e \<Rightarrow> Inl e | Inr v \<Rightarrow> k v)"

definition fputs :: "string \<Rightarrow> FILE \<Rightarrow> ub + FILE" where
  "fputs s outfile =
     (case outfile of None \<Rightarrow> Inl Null_stream | Some w \<Rightarrow> Inr (Some (w @ s)))"

definition std_include :: "fastq \<Rightarrow> FILE \<Rightarrow> ub + FILE" where
  "std_include r outfile =
     then_ub (fputs (chars (header r)) outfile) (\<lambda>f1.
     then_ub (fputs (chars (seq r)) f1) (\<lambda>f2.
     then_ub (fputs (chars (strand r)) f2) (\<lambda>f3.
     fputs (chars (qual r)) f3)))"

text \<open>
  The two assignments \<^verbatim>\<open>s[i] = '\n'; s[i + 1] = '\0';\<close> on a line held in a block of
  \<open>alloc\<close> bytes. Inside the string they cut it; on its terminator they lengthen it by
  the newline; past the terminator, inside the block, they leave the string as it is.
\<close>

definition terminate_at :: "line \<Rightarrow> int \<Rightarrow> ub + line" where
  "terminate_at l i =
     (if i < 0 \<or> alloc l \<le> nat i + 1 then Inl Out_of_bounds
      else if nat i \<le> strlen l then Inr (l\<lparr>chars := take (nat i) (chars l) @ [newline]\<rparr>)
      else Inr l)"

definition trim_include :: "fastq \<Rightarrow> FILE \<Rightarrow> int \<Rightarrow> ub + FILE" where
  "trim_include r outfile trim_len =
     (if strlen (seq r) > size_t_of_int (trim_len + 1)
      then then_ub (terminate_at (seq r) trim_len) (\<lambda>seq'.
           then_ub (terminate_at (qual r) trim_len) (\<lambda>qual'.
           std_include (r\<lparr>seq := seq', qual := qual'\<rparr>) outfile))
      else std_include r outfile)"

definition trim_include_r1 :: "globals \<Rightarrow> fastq \<Rightarrow> FILE \<Rightarrow> ub + FILE" where
  "trim_include_r1 g r outfile = trim_include r outfile (trim_r1 g)"

definition trim_include_r2 :: "globals \<Rightarrow> fastq \<Rightarrow> FILE \<Rightarrow> ub + FILE" where
  "trim_include_r2 g r outfile = trim_include r outfile (trim_r2 g)"

definition call_include_func :: "include_fn \<Rightarrow> globals \<Rightarrow> fastq \<Rightarrow> FILE \<Rightarrow> ub + FILE" where
  "call_include_func fn g r outfile =
     (case fn of
        Std_include \<Rightarrow> std_include r outfile
      | Trim_include_r1 \<Rightarrow> trim_include_r1 g r outfile
      | Trim_include_r2 \<Rightarrow> trim_include_r2 g r outfile)"

subsection \<open>The filter loop\<close>

datatype message = Differing_reads_from_line int

definition log_message :: "globals \<Rightarrow> message \<Rightarrow> message list \<Rightarrow> message list" where
  "log_message g m out = (if quiet g then out else out @ [m])"

datatype stream = R1i | R2i | R1o | R2o

record loop_state =
  r1i :: gzFile
  r2i :: gzFile
  r1o :: FILE
  r2o :: FILE
  read_pairs_checked :: int
  read_pairs_removed :: int
  read_pairs_remaining :: int
  console :: "message list"

text \<open>
  What \<^verbatim>\<open>filter_fastqs\<close> leaves behind when it returns: its return value, the
  counters, the two output files as closed, the console and the streams closed, in order.
\<close>

record outcome =
  ret_val :: int
  checked :: int
  removed :: int
  remaining :: int
  r1_filtered :: string
  r2_filtered :: string
  logged :: "message list"
  closed :: "stream list"

datatype step = Running loop_state | Returned outcome

definition call_read_func :: "globals \<Rightarrow> gzFile \<Rightarrow> line \<times> gzFile" where
  "call_read_func g f =
     (case read_func g of Readln \<Rightarrow> readln f | Readln_unsafe \<Rightarrow> readln_unsafe f)"

text \<open>The four calls of \<^verbatim>\<open>read_func\<close> on one stream.\<close>

definition read_fastq :: "globals \<Rightarrow> gzFile \<Rightarrow> fastq \<times> gzFile" where
  "read_fastq g f =
     (let (h, f1) = call_read_func g f;
          (s, f2) = call_read_func g f1;
          (t, f3) = call_read_func g f2;
          (q, f4) = call_read_func g f3
      in (\<lparr>header = h, seq = s, strand = t, qual = q\<rparr>, f4))"

definition fclose :: "FILE \<Rightarrow> ub + string" where
  "fclose f = (case f of None \<Rightarrow> Inl Null_stream | Some w \<Rightarrow> Inr w)"

text \<open>
  One round of the \<^verbatim>\<open>while (true)\<close> loop. \<^verbatim>\<open>*r1_header == '\0'\<close> says that the
  string is empty, and inside that branch \<^verbatim>\<open>*r1_header != *r2_header\<close> says that
  exactly one of the two is.
\<close>

definition filter_iteration :: "globals \<Rightarrow> loop_state \<Rightarrow> ub + step" where
  "filter_iteration g st =
     (let (r1, r1i') = read_fastq g (r1i st);
          (r2, r2i') = read_fastq g (r2i st)
      in if chars (header r1) = [] \<or> chars (header r2) = []
         then
           (let differ = ((chars (header r1) = []) \<noteq> (chars (header r2) = []));
                out = (if differ
                       then log_message g
                              (Differing_reads_from_line (c_int (read_pairs_checked st * 4)))
                              (console st)
                       else console st)
            in then_ub (fclose (r1o st)) (\<lambda>w1.
               then_ub (fclose (r2o st)) (\<lambda>w2.
               Inr (Returned
                 \<lparr>ret_val = (if differ then 1 else 0),
                  checked = read_pairs_checked st,
                  removed = read_pairs_removed st,
                  remaining = read_pairs_remaining st,
                  r1_filtered = w1,
                  r2_filtered = w2,
                  logged = out,
                  closed = [R1i, R2i, R1o, R2o]\<rparr>))))
         else
           then_ub (call_check_func g r1 r2) (\<lambda>keep.
             if keep = True
             then then_ub (call_include_func (include_func_r1 g) g r1 (r1o st)) (\<lambda>o1.
                  then_ub (call_include_func (include_func_r2 g) g r2 (r2o st)) (\<lambda>o2.
                  Inr (Running
                    (st\<lparr>r1i := r1i', r2i := r2i', r1o := o1, r2o := o2,
                        read_pairs_checked := c_int (read_pairs_checked st + 1),
                        read_pairs_remaining := c_int (read_pairs_remaining st + 1)\<rparr>))))
             else Inr (Running
                    (st\<lparr>r1i := r1i', r2i := r2i',
                        read_pairs_checked := c_int (read_pairs_checked st + 1),
                        read_pairs_removed := c_int (read_pairs_removed st + 1)\<rparr>))))"

lemma readln_unsafe_unread:
  "readln_unsafe f = (l, f') \<Longrightarrow>
     unread f' \<le> unread f \<and> (chars l \<noteq> [] \<longrightarrow> unread f' < unread f)"
proof -
  assume a: "readln_unsafe f = (l, f')"
  obtain r g where gz: "gzgets f unsafe_block_size = (r, g)"
    by (cases "gzgets f unsafe_block_size")
  show ?thesis
  proof (cases r)
    case None
    then have "g = f" using gz by (auto simp: gzgets_def Let_def split: option.splits if_splits)
    with None gz a show ?thesis by (auto simp: readln_unsafe_def)
  next
    case (Some got)
    then have "unread g < unread f" using gz gzgets_Some_unread by simp
    with Some gz a show ?thesis by (auto simp: readln_unsafe_def)
  qed
qed

lemma call_read_func_unread:
  "call_read_func g f = (l, f') \<Longrightarrow>
     unread f' \<le> unread f \<and> (chars l \<noteq> [] \<longrightarrow> unread f' < unread f)"
  using readln_loop_unread [of f "[]" block_size l f'] readln_unsafe_unread [of f l f']
  by (cases "read_func g") (simp_all add: call_read_func_def readln_def)

lemma read_fastq_unread:
  assumes "read_fastq g f = (r, f')"
  shows "unread f' \<le> unread f \<and> (chars (header r) \<noteq> [] \<longrightarrow> unread f' < unread f)"
proof -
  obtain h f1 where a: "call_read_func g f = (h, f1)" by (cases "call_read_func g f")
  obtain s f2 where b: "call_read_func g f1 = (s, f2)" by (cases "call_read_func g f1")
  obtain t f3 where c: "call_read_func g f2 = (t, f3)" by (cases "call_read_func g f2")
  obtain q f4 where d: "call_read_func g f3 = (q, f4)" by (cases "call_read_func g f3")
  have r: "r = \<lparr>header = h, seq = s, strand = t, qual = q\<rparr>" and f: "f' = f4"
    using assms a b c d by (simp_all add: read_fastq_def)
  from call_read_func_unread [OF a] call_read_func_unread [OF b]
    call_read_func_unread [OF c] call_read_func_unread [OF d]
  show ?thesis unfolding r f by auto
qed

lemma filter_iteration_Running:
  assumes "filter_iteration g st = Inr (Running st')"
  shows "r1i st' = snd (read_fastq g (r1i st)) \<and> r2i st' = snd (read_fastq g (r2i st)) \<and>
         chars (header (fst (read_fastq g (r1i st)))) \<noteq> [] \<and>
         chars (header (fst (read_fastq g (r2i st)))) \<noteq> []"
  using assms
  by (auto simp: filter_iteration_def then_ub_def Let_def
           split: prod.splits if_splits sum.splits)

lemma filter_iteration_unread:
  assumes "filter_iteration g st = Inr (Running st')"
  shows "unread (r1i st') < unread (r1i st)"
  using filter_iteration_Running [OF assms]
    read_fastq_unread [of g "r1i st" "fst (read_fastq g (r1i st))" "snd (read_fastq g (r1i st))"]
  by simp

function filter_loop :: "globals \<Rightarrow> loop_state \<Rightarrow> ub + outcome" where
  "filter_loop g st =
     (case filter_iteration g st of
        Inl e \<Rightarrow> Inl e
      | Inr (Returned res) \<Rightarrow> Inr res
      | Inr (Running st') \<Rightarrow> filter_loop g st')"
  by pat_completeness auto
termination
  by (relation "measure (\<lambda>(g, st). unread (r1i st))") (auto dest: filter_iteration_unread)

declare filter_loop.simps [simp del]

text \<open>
  \<^verbatim>\<open>filter_fastqs\<close>, given what the four \<^verbatim>\<open>gzopen\<close> and \<^verbatim>\<open>fopen\<close> calls returned.
  The counters are the globals, zero at program start.
\<close>

definition initial_state :: "gzFile \<Rightarrow> gzFile \<Rightarrow> FILE \<Rightarrow> FILE \<Rightarrow> loop_state" where
  "initial_state i1 i2 o1 o2 =
     \<lparr>r1i = i1, r2i = i2, r1o = o1, r2o = o2,
      read_pairs_checked = 0, read_pairs_removed = 0, read_pairs_remaining = 0,
      console = []\<rparr>"

definition filter_fastqs :: "globals \<Rightarrow> gzFile \<Rightarrow> gzFile \<Rightarrow> FILE \<Rightarrow> FILE \<Rightarrow> ub + outcome" where
  "filter_fastqs g i1 i2 o1 o2 = filter_loop g (initial_state i1 i2 o1 o2)"

subsection \<open>The program\<close>

text \<open>
  What \<^verbatim>\<open>main\<close> holds when its loop over the options has ended: the
  configuration, the four paths, the path of the statistics file and the argument of
  \<^verbatim>\<open>--remove_tiles\<close>. A path that was not given is \<^verbatim>\<open>NULL\<close>.
\<close>

record settings =
  config :: globals
  r1i_path :: "string option"
  r2i_path :: "string option"
  r1o_path :: "string option"
  r2o_path :: "string option"
  stats_file :: "string option"
  remove_tiles :: "string option"

text \<open>The values of the globals at program start.\<close>

definition initial_settings :: settings where
  "initial_settings =
     \<lparr>config =
        \<lparr>threshold = - 1, quiet = False, trim_r1 = 0, trim_r2 = 0, tiles_to_remove = [],
         read_func = Readln, check_func = Std_check_read,
         include_func_r1 = Std_include, include_func_r2 = Std_include\<rparr>,
      r1i_path = None, r2i_path = None, r1o_path = None, r2o_path = None,
      stats_file = None, remove_tiles = None\<rparr>"

text \<open>
  What one call of \<^verbatim>\<open>getopt_long\<close> returns: the option found, with its argument
  (for a numeric option the value that \<^verbatim>\<open>atoi\<close> gives), or the error code for
  anything else.
\<close>

datatype opt =
    Opt_help | Opt_version | Opt_quiet | Opt_unsafe
  | Opt_stats_file string | Opt_threshold int | Opt_remove_tiles string
  | Opt_trim_r1 int | Opt_trim_r2 int
  | Opt_i1 string | Opt_i2 string | Opt_o1 string | Opt_o2 string
  | Opt_unknown

text \<open>
  The \<^verbatim>\<open>while\<close> loop of \<^verbatim>\<open>main\<close> over the options: the settings when it ends, or
  the status with which it calls \<^verbatim>\<open>exit\<close>.
\<close>

fun getopt_loop :: "opt list \<Rightarrow> settings \<Rightarrow> int + settings" where
  "getopt_loop [] s = Inr s"
| "getopt_loop (Opt_help # args) s = Inl 0"
| "getopt_loop (Opt_version # args) s = Inl 0"
| "getopt_loop (Opt_quiet # args) s =
     getopt_loop args (s\<lparr>config := (config s)\<lparr>quiet := True\<rparr>\<rparr>)"
| "getopt_loop (Opt_unsafe # args) s =
     getopt_loop args (s\<lparr>config := (config s)\<lparr>read_func := Readln_unsafe\<rparr>\<rparr>)"
| "getopt_loop (Opt_stats_file path # args) s =
     getopt_loop args (s\<lparr>stats_file := Some path\<rparr>)"
| "getopt_loop (Opt_threshold t # args) s =
     getopt_loop args (s\<lparr>config := (config s)\<lparr>threshold := t\<rparr>\<rparr>)"
| "getopt_loop (Opt_remove_tiles tiles # args) s =
     getopt_loop args
       (s\<lparr>remove_tiles := Some tiles,
          config := (config s)
            \<lparr>tiles_to_remove :=
               (case build_remove_tiles (Some tiles) of
                  None \<Rightarrow> tiles_to_remove (config s)
                | Some ts \<Rightarrow> ts),
             check_func := Tile_check_read\<rparr>\<rparr>)"
| "getopt_loop (Opt_trim_r1 len # args) s =
     getopt_loop args
       (s\<lparr>config := (config s)\<lparr>trim_r1 := len, include_func_r1 := Trim_include_r1\<rparr>\<rparr>)"
| "getopt_loop (Opt_trim_r2 len # args) s =
     getopt_loop args
       (s\<lparr>config := (config s)\<lparr>trim_r2 := len, include_func_r2 := Trim_include_r2\<rparr>\<rparr>)"
| "getopt_loop (Opt_i1 path # args) s = getopt_loop args (s\<lparr>r1i_path := Some path\<rparr>)"
| "getopt_loop (Opt_i2 path # args) s = getopt_loop args (s\<lparr>r2i_path := Some path\<rparr>)"
| "getopt_loop (Opt_o1 path # args) s = getopt_loop args (s\<lparr>r1o_path := Some path\<rparr>)"
| "getopt_loop (Opt_o2 path # args) s = getopt_loop args (s\<lparr>r2o_path := Some path\<rparr>)"
| "getopt_loop (Opt_unknown # args) s = Inl 1"

text \<open>
  \<^verbatim>\<open>build_output_path\<close>. It reads the last character of the path, takes the length
  of the path less 6 or 9 as a \<^verbatim>\<open>size_t\<close>, allocates that many bytes and 15 more,
  copies the start of the path with \<^verbatim>\<open>strncpy\<close>, terminates it and appends the 15
  characters of \<^verbatim>\<open>_filtered.fastq\<close> with \<^verbatim>\<open>strcat\<close>, which writes a terminator
  after them.
\<close>

definition build_output_path :: "string \<Rightarrow> ub + string" where
  "build_output_path input_path =
     (if input_path = [] then Inl Out_of_bounds
      else
        (let file_ext_len = (if last input_path = CHR ''z'' then 9 else 6);
             basename_len = (length input_path + 2 ^ 64 - file_ext_len) mod 2 ^ 64;
             room = (basename_len + 15) mod 2 ^ 64;
             output_path = take basename_len input_path @ ''_filtered.fastq''
         in if room < basename_len + 1 then Inl Out_of_bounds
            else if room < length output_path + 1 then Inl Out_of_bounds
            else Inr output_path))"

text \<open>
  The files of the machine: the text that a file delivers to \<^verbatim>\<open>gzread\<close> when
  \<^verbatim>\<open>gzopen\<close> can open it for reading, and whether \<^verbatim>\<open>fopen\<close> can open a path for
  writing. The input files are taken to be other files than the output files.
\<close>

record filesystem =
  readable :: "string \<Rightarrow> string option"
  writable :: "string \<Rightarrow> bool"

definition gzopen :: "filesystem \<Rightarrow> string \<Rightarrow> gzFile" where
  "gzopen fs path = readable fs path"

definition fopen :: "filesystem \<Rightarrow> string \<Rightarrow> FILE" where
  "fopen fs path = (if writable fs path then Some [] else None)"

text \<open>
  \<^verbatim>\<open>output_stats\<close>: the fields that the calls of \<^verbatim>\<open>fprintf\<close> write, in order.
  The result of \<^verbatim>\<open>fopen\<close> is not tested.
\<close>

datatype stat = Text string | Number int

definition output_stats ::
    "filesystem \<Rightarrow> settings \<Rightarrow> string \<Rightarrow> string \<Rightarrow> string \<Rightarrow> string \<Rightarrow> outcome \<Rightarrow> string \<Rightarrow>
       ub + (string \<times> stat) list" where
  "output_stats fs s p1 q1 p2 q2 res path =
     (case fopen fs path of
        None \<Rightarrow> Inl Null_stream
      | Some f \<Rightarrow>
          Inr ([(''r1i'', Text p1), (''r1o'', Text q1), (''r2i'', Text p2), (''r2o'', Text q2),
                (''read_pairs_checked'', Number (checked res)),
                (''read_pairs_removed'', Number (removed res)),
                (''read_pairs_remaining'', Number (remaining res))] @
               (if trim_r1 (config s) \<noteq> 0 then [(''trim_r1'', Number (trim_r1 (config s)))]
                else []) @
               (if trim_r2 (config s) \<noteq> 0 then [(''trim_r2'', Number (trim_r2 (config s)))]
                else []) @
               (case remove_tiles s of
                  None \<Rightarrow> []
                | Some tiles \<Rightarrow> [(''remove_tiles'', Text tiles)])))"

text \<open>
  \<^verbatim>\<open>main\<close>, given the results of the calls of \<^verbatim>\<open>getopt_long\<close>: the exit status
  of the process. After the options it exits with 1 unless both input paths and a
  threshold other than \<open>-1\<close> were given; it derives the output paths that were not
  given; it runs \<^verbatim>\<open>filter_fastqs\<close> on the four files as \<^verbatim>\<open>gzopen\<close> and
  \<^verbatim>\<open>fopen\<close> return them; it writes the statistics file when one was asked for; and it
  returns what \<^verbatim>\<open>filter_fastqs\<close> returned.
\<close>

definition main :: "filesystem \<Rightarrow> opt list \<Rightarrow> ub + int" where
  "main fs args =
     (case getopt_loop args initial_settings of
        Inl status \<Rightarrow> Inr status
      | Inr s \<Rightarrow>
          (case (r1i_path s, r2i_path s) of
             (Some p1, Some p2) \<Rightarrow>
               if threshold (config s) = - 1 then Inr 1
               else
                 then_ub (case r1o_path s of None \<Rightarrow> build_output_path p1 | Some q \<Rightarrow> Inr q)
                   (\<lambda>q1.
                 then_ub (case r2o_path s of None \<Rightarrow> build_output_path p2 | Some q \<Rightarrow> Inr q)
                   (\<lambda>q2.
                 then_ub (filter_fastqs (config s) (gzopen fs p1) (gzopen fs p2)
                            (fopen fs q1) (fopen fs q2))
                   (\<lambda>res.
                 then_ub (case stats_file s of
                            None \<Rightarrow> Inr []
                          | Some path \<Rightarrow> output_stats fs s p1 q1 p2 q2 res path)
                   (\<lambda>written. Inr (ret_val res)))))
           | _ \<Rightarrow> Inr 1))"

section \<open>Notions of the specification and example inputs\<close>

text \<open>
  A line in the block that \<^verbatim>\<open>readln\<close> allocates for a line of one chunk, and a
  record of four terminated lines.
\<close>

definition mk_line :: "string \<Rightarrow> line" where
  "mk_line s = \<lparr>chars = s, alloc = 2 * block_size + 1\<rparr>"

definition mk_fastq :: "string \<Rightarrow> string \<Rightarrow> string \<Rightarrow> string \<Rightarrow> fastq" where
  "mk_fastq h s t q =
     \<lparr>header = mk_line (h @ [newline]), seq = mk_line (s @ [newline]),
      strand = mk_line (t @ [newline]), qual = mk_line (q @ [newline])\<rparr>"

text \<open>The configuration of a run with \<^verbatim>\<open>--threshold t\<close> and no other option.\<close>

definition default_globals :: "int \<Rightarrow> globals" where
  "default_globals t =
     \<lparr>threshold = t, quiet = False, trim_r1 = 0, trim_r2 = 0, tiles_to_remove = [],
      read_func = Readln, check_func = Std_check_read,
      include_func_r1 = Std_include, include_func_r2 = Std_include\<rparr>"

text \<open>The residues of a sequence line: the line without its terminator.\<close>

definition residues :: "line \<Rightarrow> string" where
  "residues l = takeWhile (\<lambda>c. c \<noteq> newline) (chars l)"

text \<open>
  The next text line of a stream, in the words of the specification: the characters before
  the first newline, and that newline when there is one.
\<close>

definition next_line :: "string \<Rightarrow> string" where
  "next_line s =
     takeWhile (\<lambda>c. c \<noteq> newline) s @ take 1 (dropWhile (\<lambda>c. c \<noteq> newline) s)"


text \<open>
  The colon-delimited fields of a header in the words of the specification: the header
  split at every colon, so that two colons in a row enclose an empty field.
\<close>

fun split_on :: "char \<Rightarrow> string \<Rightarrow> string list" where
  "split_on d [] = [[]]"
| "split_on d (c # cs) =
     (if c = d then [] # split_on d cs
      else (case split_on d cs of [] \<Rightarrow> [[c]] | f # fs \<Rightarrow> (c # f) # fs))"

definition colon_fields :: "string \<Rightarrow> string list" where
  "colon_fields h = split_on CHR '':'' h"

text \<open>The fields that are not empty, in order.\<close>

definition nonempty_fields :: "string \<Rightarrow> string list" where
  "nonempty_fields h = filter (\<lambda>f. f \<noteq> []) (colon_fields h)"

text \<open>The configuration of a run with \<^verbatim>\<open>--threshold t --remove_tiles tiles\<close>.\<close>

definition tile_globals :: "int \<Rightarrow> string list \<Rightarrow> globals" where
  "tile_globals t tiles =
     (default_globals t)\<lparr>tiles_to_remove := tiles, check_func := Tile_check_read\<rparr>"

text \<open>
  The truncation of a record in the words of the specification: when the sequence line is
  longer than \<open>len + 1\<close>, the sequence and the quality line become their first \<open>len\<close>
  characters followed by a line terminator.
\<close>

definition truncate_record :: "fastq \<Rightarrow> int \<Rightarrow> fastq" where
  "truncate_record r len =
     (if len + 1 < int (length (chars (seq r)))
      then r\<lparr>seq := (seq r)\<lparr>chars := take (nat len) (chars (seq r)) @ [newline]\<rparr>,
             qual := (qual r)\<lparr>chars := take (nat len) (chars (qual r)) @ [newline]\<rparr>\<rparr>
      else r)"

text \<open>
  The number of records that the record reader (four calls of \<^verbatim>\<open>read_func\<close> a
  record) delivers from a stream before it returns the end-of-stream record: a record
  is counted as soon as its header line is not empty, so a last record that lacks lines
  is counted too.
\<close>

function n_records :: "globals \<Rightarrow> gzFile \<Rightarrow> nat" where
  "n_records g f =
     (case read_fastq g f of
        (r, f') \<Rightarrow> if chars (header r) = [] then 0 else Suc (n_records g f'))"
  by pat_completeness auto
termination
  by (relation "measure (\<lambda>(g, f). unread f)") (auto dest!: read_fastq_unread [OF sym])

declare n_records.simps [simp del]

text \<open>After \<open>n\<close> rounds of the loop, when it is still running then.\<close>

fun after_iterations :: "globals \<Rightarrow> nat \<Rightarrow> loop_state \<Rightarrow> loop_state option" where
  "after_iterations g 0 st = Some st"
| "after_iterations g (Suc n) st =
     (case filter_iteration g st of
        Inr (Running st') \<Rightarrow> after_iterations g n st'
      | _ \<Rightarrow> None)"

text \<open>The run of a filter with the length predicate and no trimming.\<close>

definition threshold_only :: "globals \<Rightarrow> bool" where
  "threshold_only g \<longleftrightarrow>
     check_func g = Std_check_read \<and> include_func_r1 g = Std_include \<and>
     include_func_r2 g = Std_include"

text \<open>The text that \<^verbatim>\<open>std_include\<close> writes for a record.\<close>

definition flat :: "fastq \<Rightarrow> string" where
  "flat r = chars (header r) @ chars (seq r) @ chars (strand r) @ chars (qual r)"

text \<open>The text of a record in a FASTQ file, and two files of three and of two records.\<close>

definition record_text :: "string \<Rightarrow> string \<Rightarrow> string \<Rightarrow> string" where
  "record_text h s q = h @ [newline] @ s @ [newline] @ ''+'' @ [newline] @ q @ [newline]"

definition three_reads :: string where
  "three_reads =
     record_text ''@a'' ''ACGTACGT'' ''########'' @
     record_text ''@b'' ''ACG'' ''###'' @
     record_text ''@c'' ''TTGCATGA'' ''########''"

definition two_reads :: string where
  "two_reads =
     record_text ''@a'' ''ACGTACGA'' ''########'' @
     record_text ''@b'' ''ACGTT'' ''#####''"

text \<open>
  The string that one call of \<^verbatim>\<open>read_func\<close> returns on an open stream, and the
  strings of \<open>n\<close> calls in a row with the rest of the stream.
\<close>

definition line_of :: "globals \<Rightarrow> string \<Rightarrow> string" where
  "line_of g s =
     (case read_func g of
        Readln \<Rightarrow> next_line s
      | Readln_unsafe \<Rightarrow> gets_chunk (unsafe_block_size - 1) s)"

fun lines_of :: "globals \<Rightarrow> nat \<Rightarrow> string \<Rightarrow> string list \<times> string" where
  "lines_of g 0 s = ([], s)"
| "lines_of g (Suc n) s =
     (case lines_of g n (drop (length (line_of g s)) s) of
        (ls, rest) \<Rightarrow> (line_of g s # ls, rest))"

text \<open>The four strings of a record.\<close>

definition record_lines :: "fastq \<Rightarrow> string list" where
  "record_lines r = [chars (header r), chars (seq r), chars (strand r), chars (qual r)]"

text \<open>The value of a counter after \<open>k\<close> increments from \<open>x\<close>.\<close>

definition count_up :: "nat \<Rightarrow> int \<Rightarrow> int" where
  "count_up k x = ((\<lambda>v. c_int (v + 1)) ^^ k) x"

text \<open>
  The lines of a text in the words of the specification: every line ends with its
  newline, except the last one when the text does not end with a newline.
\<close>

fun text_lines :: "string \<Rightarrow> string list" where
  "text_lines [] = []"
| "text_lines (c # cs) =
     (if c = newline then [c] # text_lines cs
      else (case text_lines cs of [] \<Rightarrow> [[c]] | l # ls \<Rightarrow> (c # l) # ls))"

text \<open>
  The records of a FASTQ text, four lines each: the number of records that the text
  begins (the last one may lack lines), and the number of records that are complete.
\<close>

definition record_count :: "string \<Rightarrow> nat" where
  "record_count s = (length (text_lines s) + 3) div 4"

definition complete_records :: "string \<Rightarrow> nat" where
  "complete_records s = length (text_lines s) div 4"

text \<open>
  The longest line that a reader returns whole. \<^verbatim>\<open>readln_unsafe\<close> has room for 4095
  characters. \<^verbatim>\<open>readln\<close> reads up to 2047 characters a round and adds 2048 to
  \<^verbatim>\<open>_block_size\<close> in every round: a line of at most \<open>2047 * 1048573\<close> characters is
  read in at most 1048574 rounds, which keeps \<^verbatim>\<open>_block_size\<close> below \<open>2^31\<close>.
\<close>

definition line_limit :: "globals \<Rightarrow> nat" where
  "line_limit g =
     (case read_func g of
        Readln \<Rightarrow> 2047 * 1048573
      | Readln_unsafe \<Rightarrow> unsafe_block_size - 1)"

text \<open>
  A text that the reader of the configuration reads line by line: no line has a NUL
  byte and none is longer than the reader's limit.
\<close>

definition whole_lines :: "globals \<Rightarrow> string \<Rightarrow> bool" where
  "whole_lines g s \<longleftrightarrow>
     (\<forall>l \<in> set (text_lines s). CHR 0x00 \<notin> set l \<and> length l \<le> line_limit g)"

text \<open>
  What the caller of a run observes: the status, the counter \<open>checked\<close> and the
  console; nothing when the run has no defined result.
\<close>

definition report :: "ub + outcome \<Rightarrow> (int \<times> int \<times> message list) option" where
  "report r =
     (case r of
        Inl e \<Rightarrow> None
      | Inr res \<Rightarrow> Some (ret_val res, checked res, logged res))"

text \<open>A text of \<open>n\<close> records of four empty lines.\<close>

definition blank_records :: "nat \<Rightarrow> string" where
  "blank_records n = replicate (4 * n) newline"

text \<open>
  The number of records that an input stream delivers, none when it could not be opened;
  and an input stream whose text, if it has one, the reader reads line by line.
\<close>

definition delivered :: "gzFile \<Rightarrow> nat" where
  "delivered f = (case f of None \<Rightarrow> 0 | Some s \<Rightarrow> record_count s)"

definition whole_lines_stream :: "globals \<Rightarrow> gzFile \<Rightarrow> bool" where
  "whole_lines_stream g f = (case f of None \<Rightarrow> True | Some s \<Rightarrow> whole_lines g s)"

text \<open>
  Two machines: on the first the two mates are files of three and of two records and
  every path can be written; on the second no file can be read. And a command line.
\<close>

definition two_files :: filesystem where
  "two_files =
     \<lparr>readable = (\<lambda>path. if path = ''r1.fastq'' then Some three_reads
                          else if path = ''r2.fastq'' then Some two_reads else None),
      writable = (\<lambda>path. True)\<rparr>"

definition no_files :: filesystem where
  "no_files = \<lparr>readable = (\<lambda>path. None), writable = (\<lambda>path. True)\<rparr>"

definition command_line :: "string \<Rightarrow> string \<Rightarrow> opt list" where
  "command_line i1 i2 =
     [Opt_threshold 5, Opt_i1 i1, Opt_i2 i2, Opt_o1 ''o1.fastq'', Opt_o2 ''o2.fastq'']"

text \<open>
  \<open>rereads g e1 e2 k\<close>: a run of the filter that starts on the texts \<open>e1\<close> and \<open>e2\<close>
  keeps \<open>k\<close> pairs, removes none, writes the two texts again and returns 0.
\<close>

definition rereads :: "globals \<Rightarrow> string \<Rightarrow> string \<Rightarrow> nat \<Rightarrow> bool" where
  "rereads g e1 e2 k \<longleftrightarrow>
     (\<forall>(st :: loop_state) v1 v2. r1i st = Some e1 \<longrightarrow> r2i st = Some e2 \<longrightarrow>
        r1o st = Some v1 \<longrightarrow> r2o st = Some v2 \<longrightarrow>
        filter_loop g st =
          Inr \<lparr>ret_val = 0,
               checked = count_up k (read_pairs_checked st),
               removed = read_pairs_removed st,
               remaining = count_up k (read_pairs_remaining st),
               r1_filtered = v1 @ e1, r2_filtered = v2 @ e2,
               logged = console st,
               closed = [R1i, R2i, R1o, R2o]\<rparr>)"

section \<open>The length predicate\<close>

lemma size_t_of_int_nonneg: "0 \<le> i \<Longrightarrow> i < 2 ^ 31 \<Longrightarrow> size_t_of_int i = nat i"
  by (simp add: size_t_of_int_def)

text \<open>
  A negative threshold is compared as a number above \<open>2^63\<close>: no pair is kept.
\<close>

lemma std_check_read_negative_threshold:
  assumes "threshold g < 0" and "- (2 ^ 31) \<le> threshold g" and "strlen (seq r1) < 2 ^ 63"
  shows "\<not> std_check_read g r1 r2"
proof -
  have "(threshold g + 2 ^ 64) mod 2 ^ 64 = threshold g + 2 ^ 64"
    using assms(1,2) by (intro mod_pos_pos_trivial) simp_all
  then have "threshold g mod 2 ^ 64 = threshold g + 2 ^ 64"
    by simp
  then have "size_t_of_int (threshold g) = nat (threshold g + 2 ^ 64)"
    by (simp add: size_t_of_int_def)
  moreover have "(2::int) ^ 63 \<le> threshold g + 2 ^ 64" using assms(2) by simp
  ultimately have "2 ^ 63 \<le> size_t_of_int (threshold g)"
    by (simp add: le_nat_iff)
  then show ?thesis using assms(3) by (simp add: std_check_read_def)
qed

text \<open>
  C1, as the code has it. For a threshold from \<open>0\<close> up to \<^verbatim>\<open>INT_MAX\<close>,
  \<^verbatim>\<open>std_check_read\<close> is true iff both sequence lines are longer than the threshold,
  where the length is \<^verbatim>\<open>strlen\<close> of the line as read, terminator included. So for two
  terminated sequence lines the pair is kept iff both have at least \<open>threshold\<close>
  residues: a sequence of exactly \<open>threshold\<close> residues is kept, not excluded.
\<close>

theorem std_check_read_threshold:
  assumes "0 \<le> threshold g" and "threshold g < 2 ^ 31"
  shows "(std_check_read g r1 r2 \<longleftrightarrow>
            threshold g < int (strlen (seq r1)) \<and> threshold g < int (strlen (seq r2))) \<and>
         (chars (seq r1) = s1 @ [newline] \<and> chars (seq r2) = s2 @ [newline] \<longrightarrow>
            (std_check_read g r1 r2 \<longleftrightarrow>
               threshold g \<le> int (length s1) \<and> threshold g \<le> int (length s2)))"
  using assms by (auto simp: std_check_read_def size_t_of_int_nonneg strlen_def)

theorem std_check_read_threshold_witness:
  "std_check_read (default_globals 5) (mk_fastq ''@r/1'' ''ACGTAC'' ''+'' ''######'')
     (mk_fastq ''@r/2'' ''ACGTA'' ''+'' ''#####'') \<and>
   \<not> std_check_read (default_globals 5) (mk_fastq ''@r/1'' ''ACGTAC'' ''+'' ''######'')
     (mk_fastq ''@r/2'' ''ACG'' ''+'' ''###'')"
  using std_check_read_threshold [of "default_globals 5"
      "mk_fastq ''@r/1'' ''ACGTAC'' ''+'' ''######''"
      "mk_fastq ''@r/2'' ''ACGTA'' ''+'' ''#####''" "''ACGTAC''" "''ACGTA''"]
    std_check_read_threshold [of "default_globals 5"
      "mk_fastq ''@r/1'' ''ACGTAC'' ''+'' ''######''"
      "mk_fastq ''@r/2'' ''ACG'' ''+'' ''###''" "''ACGTAC''" "''ACG''"]
  by (simp add: default_globals_def mk_fastq_def mk_line_def strlen_def)

text \<open>
  The claim as stated fails: with threshold 5, a pair whose two sequences have exactly 5
  residues each is kept.
\<close>

theorem std_check_read_exact_threshold_kept:
  "length (residues (seq (mk_fastq ''@r/1'' ''ACGTA'' ''+'' ''#####''))) = 5 \<and>
   length (residues (seq (mk_fastq ''@r/2'' ''TTGCA'' ''+'' ''#####''))) = 5 \<and>
   threshold (default_globals 5) = 5 \<and>
   std_check_read (default_globals 5) (mk_fastq ''@r/1'' ''ACGTA'' ''+'' ''#####'')
     (mk_fastq ''@r/2'' ''TTGCA'' ''+'' ''#####'') = True"
  by (simp add: std_check_read_def size_t_of_int_def strlen_def residues_def
      default_globals_def mk_fastq_def mk_line_def)

section \<open>The growable line reader\<close>

lemma next_line_Nil: "next_line [] = []"
  by (simp add: next_line_def)

lemma next_line_Cons: "next_line (c # cs) = (if c = newline then [c] else c # next_line cs)"
  by (simp add: next_line_def)

lemma next_line_empty: "next_line s = [] \<longleftrightarrow> s = []"
  by (cases s) (simp_all add: next_line_Nil next_line_Cons)

lemma gets_chunk_Nil: "gets_chunk n [] = []"
  by (cases n) simp_all

lemma gets_chunk_empty: "gets_chunk n s = [] \<longleftrightarrow> n = 0 \<or> s = []"
  by (induction n s rule: gets_chunk.induct) auto

lemma gets_chunk_whole:
  "gets_chunk n s \<noteq> [] \<Longrightarrow> last (gets_chunk n s) = newline \<Longrightarrow> gets_chunk n s = next_line s"
  by (induction n s rule: gets_chunk.induct)
    (auto simp: next_line_Nil next_line_Cons gets_chunk_empty split: if_splits)

lemma gets_chunk_part:
  "last (gets_chunk n s) \<noteq> newline \<Longrightarrow>
     next_line s = gets_chunk n s @ next_line (drop (length (gets_chunk n s)) s)"
  by (induction n s rule: gets_chunk.induct)
    (auto simp: next_line_Nil next_line_Cons gets_chunk_empty gets_chunk_Nil split: if_splits)

lemma readln_loop_next_line:
  "readln_loop (Some s) ln bs = (l, f') \<Longrightarrow>
     chars l = ln @ next_line s \<and> f' = Some (drop (length (next_line s)) s)"
proof (induction "Some s" ln bs arbitrary: s l f' rule: readln_loop.induct)
  case (1 ln bs)
  let ?got = "gets_chunk (block_size - 1) s"
  show ?case
  proof (cases "?got = []")
    case True
    then have "s = []" by (simp add: gets_chunk_empty block_size_def)
    with "1.prems" show ?thesis
      by (auto simp: readln_loop.simps [of "Some []"] gzgets_def next_line_Nil gets_chunk_Nil)
  next
    case False
    then have gz: "gzgets (Some s) block_size = (Some ?got, Some (drop (length ?got) s))"
      by (simp add: gzgets_def Let_def)
    show ?thesis
    proof (cases "last (ln @ ?got) \<noteq> newline")
      case True
      then have rec: "readln_loop (Some (drop (length ?got) s)) (ln @ ?got) (bs + block_size) = (l, f')"
        using "1.prems" gz by (simp add: readln_loop.simps [of "Some s"])
      have nl: "last ?got \<noteq> newline" using True False by simp
      from "1.hyps" [OF gz [symmetric] refl True rec] gets_chunk_part [OF nl]
      show ?thesis by (simp add: add.commute)
    next
      case F2: False
      then have "last ?got = newline" using False by simp
      then have "?got = next_line s" using False gets_chunk_whole by blast
      with F2 "1.prems" gz show ?thesis
        by (auto simp: readln_loop.simps [of "Some s"])
    qed
  qed
qed



section \<open>Tokens and colon-delimited fields\<close>

lemma split_on_not_Nil: "split_on d s \<noteq> []"
  by (induction s) (auto split: list.splits)

lemma split_on_decompose:
  "split_on d s =
     takeWhile (\<lambda>c. c \<noteq> d) s #
       (if dropWhile (\<lambda>c. c \<noteq> d) s = [] then []
        else split_on d (drop 1 (dropWhile (\<lambda>c. c \<noteq> d) s)))"
proof (induction s)
  case Nil
  show ?case by simp
next
  case (Cons c cs)
  show ?case
  proof (cases "c = d")
    case True
    then show ?thesis by simp
  next
    case False
    then show ?thesis using Cons.IH split_on_not_Nil [of d cs]
      by (cases "split_on d cs") auto
  qed
qed

lemma split_on_skip:
  "filter (\<lambda>f. f \<noteq> []) (split_on d (dropWhile (\<lambda>c. c = d) s)) =
   filter (\<lambda>f. f \<noteq> []) (split_on d s)"
  by (induction s) (auto split: list.splits)

lemma strtok_fields_Nil: "strtok_fields [] delim = []"
  by (simp add: strtok_def strtok_fields.simps [of "[]"])

lemma strtok_fields_split:
  "strtok_fields s [d] = filter (\<lambda>f. f \<noteq> []) (split_on d s)"
proof (induction s "[d]" rule: strtok_fields.induct)
  case (1 s)
  let ?s' = "dropWhile (\<lambda>c. c = d) s"
  show ?case
  proof (cases "?s' = []")
    case True
    then have "strtok_fields s [d] = []" by (simp add: strtok_def strtok_fields.simps [of s])
    moreover have "filter (\<lambda>f. f \<noteq> []) (split_on d ?s') = []"
      by (simp only: True split_on.simps) simp
    ultimately show ?thesis using split_on_skip [of d s] by simp
  next
    case False
    let ?tok = "takeWhile (\<lambda>c. c \<noteq> d) ?s'"
    let ?rest = "drop 1 (dropWhile (\<lambda>c. c \<noteq> d) ?s')"
    have st: "strtok s [d] = (Some ?tok, ?rest)" using False by (simp add: strtok_def Let_def)
    have "hd ?s' \<noteq> d" using False hd_dropWhile [of "\<lambda>c. c = d" s] by simp
    then have tok: "?tok \<noteq> []" using False
      unfolding takeWhile_eq_Nil_iff by blast
    have ih: "strtok_fields ?rest [d] = filter (\<lambda>f. f \<noteq> []) (split_on d ?rest)"
      using "1.hyps" [OF st [symmetric] refl] .
    have A: "filter (\<lambda>f. f \<noteq> []) (split_on d ?s') =
        ?tok # filter (\<lambda>f. f \<noteq> [])
          (if dropWhile (\<lambda>c. c \<noteq> d) ?s' = [] then [] else split_on d ?rest)"
      by (subst split_on_decompose) (simp add: tok)
    have B: "filter (\<lambda>f. f \<noteq> [])
          (if dropWhile (\<lambda>c. c \<noteq> d) ?s' = [] then [] else split_on d ?rest) =
        filter (\<lambda>f. f \<noteq> []) (split_on d ?rest)"
    proof (cases "dropWhile (\<lambda>c. c \<noteq> d) ?s' = []")
      case True
      have "split_on d ?rest = [[]]" by (simp only: True drop_Nil split_on.simps)
      then show ?thesis by (simp only: True if_True) simp
    next
      case False
      then show ?thesis by (simp only: if_False)
    qed
    have "strtok_fields s [d] = ?tok # strtok_fields ?rest [d]"
      by (subst strtok_fields.simps) (simp only: st prod.case option.case)
    also have "\<dots> = ?tok # filter (\<lambda>f. f \<noteq> []) (split_on d ?rest)"
      by (simp only: ih)
    also have "\<dots> = filter (\<lambda>f. f \<noteq> []) (split_on d ?s')"
      by (simp only: A B)
    also have "\<dots> = filter (\<lambda>f. f \<noteq> []) (split_on d s)"
      by (rule split_on_skip)
    finally show ?thesis .
  qed
qed

lemma strtok_iterate:
  "fst (((\<lambda>(field, rest). strtok rest delim) ^^ n) (strtok s delim)) =
     (if n < length (strtok_fields s delim) then Some (strtok_fields s delim ! n) else None)"
proof (induction n arbitrary: s)
  case 0
  show ?case by (cases "strtok s delim") (auto simp: strtok_fields.simps [of s] split: option.splits)
next
  case (Suc n)
  obtain x rest where st: "strtok s delim = (x, rest)" by (cases "strtok s delim")
  have step: "((\<lambda>(field, rest). strtok rest delim) ^^ Suc n) (strtok s delim) =
     ((\<lambda>(field, rest). strtok rest delim) ^^ n) (strtok rest delim)"
    using st by (simp add: funpow_swap1)
  show ?case
  proof (cases x)
    case None
    then have "rest = []" using st by (auto simp: strtok_def Let_def split: if_splits)
    then show ?thesis using None st step Suc.IH [of "[]"]
      by (simp add: strtok_fields_Nil strtok_fields.simps [of s])
  next
    case (Some field)
    then show ?thesis using st step Suc.IH [of rest]
      by (simp add: strtok_fields.simps [of s])
  qed
qed

lemma get_tile_id_fields:
  "get_tile_id h =
     (if 4 < length (filter (\<lambda>f. f \<noteq> []) (colon_fields h))
      then Some (filter (\<lambda>f. f \<noteq> []) (colon_fields h) ! 4) else None)"
  unfolding get_tile_id_def colon_fields_def
  using strtok_iterate [where delim = "'':''" and n = 4 and s = h]
    strtok_fields_split [where s = h and d = "CHR '':''"]
  by simp

lemma tile_scan_Some:
  "tile_scan tiles (Some t) ret = Inr (ret \<and> t \<notin> set tiles)"
  by (induction tiles arbitrary: ret) auto

lemma tile_scan_None:
  "tile_scan tiles None ret = (if tiles = [] then Inr ret else Inl Null_string)"
  by (cases tiles) auto

section \<open>The tile predicate\<close>

text \<open>
  C5, as the code has it. \<^verbatim>\<open>tile_check_read\<close> returns false whenever
  \<^verbatim>\<open>std_check_read\<close> is false, whatever the header. Otherwise the tile id is the
  fifth token that \<^verbatim>\<open>strtok\<close> finds in mate 1's header, that is the fifth
  \<^emph>\<open>non-empty\<close> colon-delimited field; when the header has five such fields the result
  is false if that field is one of \<^verbatim>\<open>tiles_to_remove\<close> and true otherwise.
\<close>

theorem tile_check_read_decision:
  "(\<not> std_check_read g r1 r2 \<longrightarrow> tile_check_read g r1 r2 = Inr False) \<and>
   (std_check_read g r1 r2 \<and> 4 < length (nonempty_fields (chars (header r1))) \<longrightarrow>
      get_tile_id (chars (header r1)) = Some (nonempty_fields (chars (header r1)) ! 4) \<and>
      tile_check_read g r1 r2 =
        Inr (nonempty_fields (chars (header r1)) ! 4 \<notin> set (tiles_to_remove g)))"
  by (simp add: tile_check_read_def get_tile_id_fields nonempty_fields_def tile_scan_Some)

theorem tile_check_read_decision_witness:
  "tile_check_read (tile_globals 5 [''1101''])
     (mk_fastq ''INST:1:FLOW:2:1101:100:200'' ''ACGTAC'' ''+'' ''######'')
     (mk_fastq ''INST:1:FLOW:2:1101:100:200'' ''ACGTAC'' ''+'' ''######'') = Inr False \<and>
   tile_check_read (tile_globals 5 [''1101''])
     (mk_fastq ''INST:1:FLOW:2:1102:100:200'' ''ACGTAC'' ''+'' ''######'')
     (mk_fastq ''INST:1:FLOW:2:1102:100:200'' ''ACGTAC'' ''+'' ''######'') = Inr True \<and>
   tile_check_read (tile_globals 5 [''1101''])
     (mk_fastq ''INST:1:FLOW:2:1102:100:200'' ''ACG'' ''+'' ''###'')
     (mk_fastq ''INST:1:FLOW:2:1102:100:200'' ''ACGTAC'' ''+'' ''######'') = Inr False"
  using tile_check_read_decision [of "tile_globals 5 [''1101'']"
      "mk_fastq ''INST:1:FLOW:2:1101:100:200'' ''ACGTAC'' ''+'' ''######''"
      "mk_fastq ''INST:1:FLOW:2:1101:100:200'' ''ACGTAC'' ''+'' ''######''"]
    tile_check_read_decision [of "tile_globals 5 [''1101'']"
      "mk_fastq ''INST:1:FLOW:2:1102:100:200'' ''ACGTAC'' ''+'' ''######''"
      "mk_fastq ''INST:1:FLOW:2:1102:100:200'' ''ACGTAC'' ''+'' ''######''"]
    tile_check_read_decision [of "tile_globals 5 [''1101'']"
      "mk_fastq ''INST:1:FLOW:2:1102:100:200'' ''ACG'' ''+'' ''###''"
      "mk_fastq ''INST:1:FLOW:2:1102:100:200'' ''ACGTAC'' ''+'' ''######''"]
  by (simp add: tile_globals_def default_globals_def mk_fastq_def mk_line_def
      std_check_read_def strlen_def size_t_of_int_def nonempty_fields_def colon_fields_def)

text \<open>
  The claim as stated fails on a header with an empty field: the colon-delimited field
  at position 4 is \<open>1101\<close>, which is in the exclusion set, but \<^verbatim>\<open>strtok\<close> skips the
  empty field, the tile id is \<open>100\<close>, and the pair is kept.
\<close>

theorem tile_check_read_empty_field_kept:
  "colon_fields (chars (header (mk_fastq ''@M:1::2:1101:100:200'' ''ACGTAC'' ''+'' ''######''))) ! 4
     = ''1101'' \<and>
   ''1101'' \<in> set (tiles_to_remove (tile_globals 5 [''1101''])) \<and>
   std_check_read (tile_globals 5 [''1101''])
     (mk_fastq ''@M:1::2:1101:100:200'' ''ACGTAC'' ''+'' ''######'')
     (mk_fastq ''@M:1::2:1101:100:200'' ''ACGTAC'' ''+'' ''######'') \<and>
   tile_check_read (tile_globals 5 [''1101''])
     (mk_fastq ''@M:1::2:1101:100:200'' ''ACGTAC'' ''+'' ''######'')
     (mk_fastq ''@M:1::2:1101:100:200'' ''ACGTAC'' ''+'' ''######'') = Inr True"
  by (simp add: tile_check_read_def get_tile_id_fields tile_scan_Some
      tile_globals_def default_globals_def mk_fastq_def mk_line_def
      std_check_read_def strlen_def size_t_of_int_def colon_fields_def)

lemma length_nonempty_fields: "length (nonempty_fields h) \<le> length (colon_fields h)"
  by (simp add: nonempty_fields_def)

text \<open>
  C10. With a non-empty exclusion set and a pair that passes the length check, a mate-1
  header of fewer than five colon-delimited fields makes \<^verbatim>\<open>get_tile_id\<close> return
  \<^verbatim>\<open>NULL\<close>, and the loop hands that null pointer to \<^verbatim>\<open>strcmp\<close>. When the
  comparison cannot go wrong in this way the header has at least five fields; it goes
  wrong exactly when the header has fewer than five non-empty fields.
\<close>

theorem tile_check_read_null_tile_id:
  assumes "tiles_to_remove g \<noteq> []" and "std_check_read g r1 r2"
  shows "(length (colon_fields (chars (header r1))) < 5 \<longrightarrow>
            get_tile_id (chars (header r1)) = None \<and>
            tile_check_read g r1 r2 = Inl Null_string) \<and>
         ((\<forall>e. tile_check_read g r1 r2 \<noteq> Inl e) \<longrightarrow>
            5 \<le> length (colon_fields (chars (header r1)))) \<and>
         (tile_check_read g r1 r2 = Inl Null_string \<longleftrightarrow>
            length (nonempty_fields (chars (header r1))) < 5)"
proof -
  let ?h = "chars (header r1)"
  have short: "length (nonempty_fields ?h) < 5 \<Longrightarrow>
      get_tile_id ?h = None \<and> tile_check_read g r1 r2 = Inl Null_string"
    using assms
    by (simp add: tile_check_read_def get_tile_id_fields nonempty_fields_def tile_scan_None)
  have long: "\<not> length (nonempty_fields ?h) < 5 \<Longrightarrow> tile_check_read g r1 r2 \<noteq> Inl Null_string"
    using assms
    by (simp add: tile_check_read_def get_tile_id_fields nonempty_fields_def tile_scan_Some)
  have le: "length (nonempty_fields ?h) \<le> length (colon_fields ?h)"
    by (rule length_nonempty_fields)
  show ?thesis
  proof (intro conjI impI)
    assume "length (colon_fields ?h) < 5"
    then have "length (nonempty_fields ?h) < 5" using le by linarith
    then show "get_tile_id ?h = None" and "tile_check_read g r1 r2 = Inl Null_string"
      using short by simp_all
  next
    assume a: "\<forall>e. tile_check_read g r1 r2 \<noteq> Inl e"
    show "5 \<le> length (colon_fields ?h)"
    proof (rule ccontr)
      assume "\<not> 5 \<le> length (colon_fields ?h)"
      then have "length (nonempty_fields ?h) < 5" using le by linarith
      then show False using short a by simp
    qed
  next
    show "tile_check_read g r1 r2 = Inl Null_string \<longleftrightarrow> length (nonempty_fields ?h) < 5"
      using short long by blast
  qed
qed

theorem tile_check_read_null_tile_id_witness:
  "tiles_to_remove (tile_globals 5 [''1101'']) \<noteq> [] \<and>
   std_check_read (tile_globals 5 [''1101''])
     (mk_fastq ''@read:1'' ''ACGTAC'' ''+'' ''######'')
     (mk_fastq ''@read:1'' ''ACGTAC'' ''+'' ''######'') \<and>
   length (colon_fields (chars (header (mk_fastq ''@read:1'' ''ACGTAC'' ''+'' ''######'')))) < 5 \<and>
   get_tile_id (chars (header (mk_fastq ''@read:1'' ''ACGTAC'' ''+'' ''######''))) = None \<and>
   tile_check_read (tile_globals 5 [''1101''])
     (mk_fastq ''@read:1'' ''ACGTAC'' ''+'' ''######'')
     (mk_fastq ''@read:1'' ''ACGTAC'' ''+'' ''######'') = Inl Null_string"
proof -
  have t: "tiles_to_remove (tile_globals 5 [''1101'']) \<noteq> []"
    by (simp add: tile_globals_def)
  have c: "std_check_read (tile_globals 5 [''1101''])
     (mk_fastq ''@read:1'' ''ACGTAC'' ''+'' ''######'')
     (mk_fastq ''@read:1'' ''ACGTAC'' ''+'' ''######'')"
    by (simp add: tile_globals_def default_globals_def mk_fastq_def mk_line_def
      std_check_read_def strlen_def size_t_of_int_def)
  have l: "length (colon_fields (chars (header (mk_fastq ''@read:1'' ''ACGTAC'' ''+'' ''######'')))) < 5"
    by (simp add: mk_fastq_def mk_line_def colon_fields_def)
  show ?thesis using tile_check_read_null_tile_id [OF t c] t c l by blast
qed

section \<open>An empty exclusion set\<close>

lemma read_fastq_check_func [simp]:
  "read_fastq (g\<lparr>check_func := c\<rparr>) f = read_fastq g f"
  by (simp add: read_fastq_def call_read_func_def)

lemma call_include_func_check_func [simp]:
  "call_include_func fn (g\<lparr>check_func := c\<rparr>) r out = call_include_func fn g r out"
  by (cases fn) (simp_all add: call_include_func_def trim_include_r1_def trim_include_r2_def)

lemma tile_check_read_no_tiles:
  "tiles_to_remove g = [] \<Longrightarrow> tile_check_read g r1 r2 = Inr (std_check_read g r1 r2)"
  by (simp add: tile_check_read_def)

lemma std_check_read_check_func [simp]:
  "std_check_read (g\<lparr>check_func := c\<rparr>) r1 r2 = std_check_read g r1 r2"
  by (simp add: std_check_read_def)

lemma log_message_check_func [simp]:
  "log_message (g\<lparr>check_func := c\<rparr>) m out = log_message g m out"
  by (simp add: log_message_def)

lemma call_check_func_no_tiles:
  "tiles_to_remove g = [] \<Longrightarrow>
     call_check_func (g\<lparr>check_func := Tile_check_read\<rparr>) r1 r2 =
     call_check_func (g\<lparr>check_func := Std_check_read\<rparr>) r1 r2"
  by (simp add: call_check_func_def tile_check_read_no_tiles)

lemma filter_iteration_no_tiles:
  assumes "tiles_to_remove g = []"
  shows "filter_iteration (g\<lparr>check_func := Tile_check_read\<rparr>) st =
         filter_iteration (g\<lparr>check_func := Std_check_read\<rparr>) st"
  unfolding filter_iteration_def case_prod_beta Let_def
  by (simp add: call_check_func_no_tiles [OF assms] cong: if_cong)

lemma filter_loop_no_tiles:
  assumes "tiles_to_remove g = []"
  shows "filter_loop (g\<lparr>check_func := Tile_check_read\<rparr>) st =
         filter_loop (g\<lparr>check_func := Std_check_read\<rparr>) st"
proof (induction "g\<lparr>check_func := Tile_check_read\<rparr>" st rule: filter_loop.induct)
  case (1 st)
  show ?case
  proof (cases "filter_iteration (g\<lparr>check_func := Tile_check_read\<rparr>) st")
    case (Inl e)
    then show ?thesis
      using filter_iteration_no_tiles [OF assms, of st]
      by (simp add: filter_loop.simps [of _ st])
  next
    case (Inr x)
    show ?thesis
    proof (cases x)
      case (Running st')
      then show ?thesis
        using Inr "1.hyps" [OF Inr Running] filter_iteration_no_tiles [OF assms, of st]
        by (simp add: filter_loop.simps [of _ st])
    next
      case (Returned res)
      then show ?thesis
        using Inr filter_iteration_no_tiles [OF assms, of st]
        by (simp add: filter_loop.simps [of _ st])
    qed
  qed
qed

lemma build_remove_tiles_commas: "build_remove_tiles (Some '','') = Some []"
  by (simp add: build_remove_tiles_def strtok_fields.simps [of "'',''"] strtok_def)

text \<open>
  C8. With an empty \<^verbatim>\<open>tiles_to_remove\<close> array (as \<^verbatim>\<open>build_remove_tiles\<close> builds
  from an argument of commas only) \<^verbatim>\<open>tile_check_read\<close> decides every pair as
  \<^verbatim>\<open>std_check_read\<close> does, and the whole run is the same under both predicates.
\<close>

theorem tile_check_read_empty_set:
  assumes "tiles_to_remove g = []"
  shows "tile_check_read g r1 r2 = Inr (std_check_read g r1 r2) \<and>
         filter_fastqs (g\<lparr>check_func := Tile_check_read\<rparr>) i1 i2 o1 o2 =
         filter_fastqs (g\<lparr>check_func := Std_check_read\<rparr>) i1 i2 o1 o2"
  using assms filter_loop_no_tiles [OF assms]
  by (simp add: tile_check_read_no_tiles filter_fastqs_def)

theorem tile_check_read_empty_set_witness:
  "build_remove_tiles (Some '','') = Some [] \<and>
   tile_check_read (tile_globals 5 [])
     (mk_fastq ''@read:1'' ''ACGTAC'' ''+'' ''######'')
     (mk_fastq ''@read:1'' ''ACGTAC'' ''+'' ''######'') = Inr True \<and>
   std_check_read (tile_globals 5 [])
     (mk_fastq ''@read:1'' ''ACGTAC'' ''+'' ''######'')
     (mk_fastq ''@read:1'' ''ACGTAC'' ''+'' ''######'')"
proof -
  have t: "tiles_to_remove (tile_globals 5 []) = []" by (simp add: tile_globals_def default_globals_def)
  have c: "std_check_read (tile_globals 5 [])
     (mk_fastq ''@read:1'' ''ACGTAC'' ''+'' ''######'')
     (mk_fastq ''@read:1'' ''ACGTAC'' ''+'' ''######'')"
    by (simp add: tile_globals_def default_globals_def mk_fastq_def mk_line_def
      std_check_read_def strlen_def size_t_of_int_def)
  show ?thesis
    using tile_check_read_empty_set [OF t] c build_remove_tiles_commas by simp
qed

section \<open>Trimming\<close>

text \<open>Every line that a reader returns lies inside its block, terminator included.\<close>

lemma gets_chunk_le: "length (gets_chunk n s) \<le> n"
  by (induction n s rule: gets_chunk.induct) auto

lemma gzgets_length: "gzgets f len = (Some got, f') \<Longrightarrow> length got \<le> len - 1"
  by (auto simp: gzgets_def Let_def gets_chunk_le split: option.splits if_splits)

lemma readln_loop_fits:
  "readln_loop f ln bs = (l, f') \<Longrightarrow> length ln \<le> bs \<Longrightarrow> strlen l < alloc l"
proof (induction f ln bs arbitrary: l f' rule: readln_loop.induct)
  case (1 f ln bs)
  obtain x g where gz: "gzgets f block_size = (x, g)" by (cases "gzgets f block_size")
  show ?case
  proof (cases x)
    case None
    with gz "1.prems" show ?thesis by (auto simp: readln_loop.simps [of f] strlen_def)
  next
    case (Some part)
    have len: "length part \<le> block_size - 1" using gz Some gzgets_length by simp
    show ?thesis
    proof (cases "last (ln @ part) \<noteq> newline")
      case True
      then have rec: "readln_loop g (ln @ part) (bs + block_size) = (l, f')"
        using "1.prems" gz Some by (simp add: readln_loop.simps [of f])
      have "length (ln @ part) \<le> bs + block_size" using len "1.prems"(2) by simp
      from "1.IH" [OF gz [symmetric] Some True rec this] show ?thesis .
    next
      case False
      then have "l = \<lparr>chars = ln @ part, alloc = bs + block_size + 1\<rparr>"
        using "1.prems" gz Some by (simp add: readln_loop.simps [of f])
      then show ?thesis using len "1.prems"(2) by (simp add: strlen_def)
    qed
  qed
qed

lemma call_read_func_fits: "call_read_func g f = (l, f') \<Longrightarrow> strlen l < alloc l"
proof (cases "read_func g")
  case Readln
  assume "call_read_func g f = (l, f')"
  then have "readln_loop f [] block_size = (l, f')" using Readln
    by (simp add: call_read_func_def readln_def)
  then show ?thesis using readln_loop_fits by fastforce
next
  case Readln_unsafe
  assume a: "call_read_func g f = (l, f')"
  obtain x h where gz: "gzgets f unsafe_block_size = (x, h)"
    by (cases "gzgets f unsafe_block_size")
  show ?thesis
  proof (cases x)
    case None
    with a gz Readln_unsafe show ?thesis
      by (auto simp: call_read_func_def readln_unsafe_def strlen_def unsafe_block_size_def)
  next
    case (Some got)
    then have "length got \<le> unsafe_block_size - 1" using gz gzgets_length by simp
    with a gz Some Readln_unsafe show ?thesis
      by (auto simp: call_read_func_def readln_unsafe_def strlen_def unsafe_block_size_def)
  qed
qed

text \<open>
  C4, as the code has it. For a trim length from \<open>0\<close> below \<^verbatim>\<open>INT_MAX\<close> and a record
  whose lines lie in their blocks and whose quality line is longer than \<open>len\<close> whenever
  its sequence line is longer than \<open>len + 1\<close> (so for every record whose two lines have
  the same length), \<^verbatim>\<open>_trim_include\<close> writes the header and the strand line as they
  are, and the sequence and quality lines cut to \<open>len\<close> characters and a newline exactly
  when the sequence line is longer than \<open>len + 1\<close>.
\<close>

theorem trim_include_truncates:
  assumes "0 \<le> len" and "len < 2 ^ 31 - 1"
    and "strlen (seq r) < alloc (seq r)" and "strlen (qual r) < alloc (qual r)"
    and "len + 1 < int (strlen (seq r)) \<longrightarrow> len < int (strlen (qual r))"
  shows "trim_include r (Some w) len =
           Inr (Some (w @ chars (header r) @
             (if len + 1 < int (strlen (seq r))
              then take (nat len) (chars (seq r)) @ [newline] else chars (seq r)) @
             chars (strand r) @
             (if len + 1 < int (strlen (seq r))
              then take (nat len) (chars (qual r)) @ [newline] else chars (qual r))))"
proof -
  have conv: "size_t_of_int (len + 1) = nat (len + 1)"
    using assms(1,2) by (simp add: size_t_of_int_nonneg)
  show ?thesis
  proof (cases "len + 1 < int (strlen (seq r))")
    case False
    then have "\<not> size_t_of_int (len + 1) < strlen (seq r)" using conv assms(1) by simp
    with False show ?thesis
      by (simp add: trim_include_def std_include_def fputs_def then_ub_def)
  next
    case True
    then have q: "len < int (strlen (qual r))" using assms(5) by simp
    have s': "terminate_at (seq r) len =
        Inr ((seq r)\<lparr>chars := take (nat len) (chars (seq r)) @ [newline]\<rparr>)"
    proof -
      have "nat len + 1 < strlen (seq r)" using True assms(1) by linarith
      then have "\<not> alloc (seq r) \<le> nat len + 1" and "nat len \<le> strlen (seq r)"
        using assms(3) by linarith+
      then show ?thesis using assms(1) by (simp add: terminate_at_def)
    qed
    have q': "terminate_at (qual r) len =
        Inr ((qual r)\<lparr>chars := take (nat len) (chars (qual r)) @ [newline]\<rparr>)"
    proof -
      have "nat len < strlen (qual r)" using q assms(1) by linarith
      then have "\<not> alloc (qual r) \<le> nat len + 1" and "nat len \<le> strlen (qual r)"
        using assms(4) by linarith+
      then show ?thesis using assms(1) by (simp add: terminate_at_def)
    qed
    have c: "size_t_of_int (len + 1) < strlen (seq r)" using True conv assms(1) by simp
    show ?thesis using True c
      by (simp add: trim_include_def s' q' std_include_def fputs_def then_ub_def)
  qed
qed

theorem trim_include_truncates_witness:
  "trim_include (mk_fastq ''@r'' ''ACGTACGT'' ''+'' ''########'') (Some []) 3 =
     Inr (Some (''@r'' @ [newline] @ ''ACG'' @ [newline] @ ''+'' @ [newline] @ ''###'' @ [newline])) \<and>
   trim_include (mk_fastq ''@r'' ''ACG'' ''+'' ''###'') (Some []) 3 =
     Inr (Some (''@r'' @ [newline] @ ''ACG'' @ [newline] @ ''+'' @ [newline] @ ''###'' @ [newline])) \<and>
   trim_include (mk_fastq ''@r'' ''ACGT'' ''+'' ''####'') (Some []) 3 =
     Inr (Some (''@r'' @ [newline] @ ''ACG'' @ [newline] @ ''+'' @ [newline] @ ''###'' @ [newline]))"
  using trim_include_truncates [of 3 "mk_fastq ''@r'' ''ACGTACGT'' ''+'' ''########''" "[]"]
    trim_include_truncates [of 3 "mk_fastq ''@r'' ''ACG'' ''+'' ''###''" "[]"]
    trim_include_truncates [of 3 "mk_fastq ''@r'' ''ACGT'' ''+'' ''####''" "[]"]
  by (simp add: mk_fastq_def mk_line_def strlen_def block_size_def)

text \<open>
  The claim as stated fails on a record whose quality line is shorter than \<open>len\<close>: the
  sequence line is cut, but the two bytes written at \<open>len\<close> and \<open>len + 1\<close> lie behind the
  terminator of the quality line, which is written as it was, not with a second newline.
\<close>

theorem trim_include_short_quality_unchanged:
  "4 < strlen (seq (mk_fastq ''@r'' ''ACGTACGT'' ''+'' ''#'')) \<and>
   chars (qual (mk_fastq ''@r'' ''ACGTACGT'' ''+'' ''#'')) = ''#'' @ [newline] \<and>
   trim_include (mk_fastq ''@r'' ''ACGTACGT'' ''+'' ''#'') (Some []) 3 =
     Inr (Some (''@r'' @ [newline] @ ''ACG'' @ [newline] @ ''+'' @ [newline] @ ''#'' @ [newline])) \<and>
   std_include (truncate_record (mk_fastq ''@r'' ''ACGTACGT'' ''+'' ''#'') 3) (Some []) =
     Inr (Some (''@r'' @ [newline] @ ''ACG'' @ [newline] @ ''+'' @ [newline] @ ''#'' @ [newline, newline]))"
  by (simp add: trim_include_def terminate_at_def std_include_def fputs_def then_ub_def
      truncate_record_def size_t_of_int_def mk_fastq_def mk_line_def strlen_def block_size_def)

section \<open>Counters of 32 bits\<close>

lemma c_int_id: "- (2 ^ 31) \<le> i \<Longrightarrow> i < 2 ^ 31 \<Longrightarrow> c_int i = i"
  by (simp add: c_int_def)

lemma c_int_add_left: "c_int (c_int a + b) = c_int (a + b)"
proof -
  have "(c_int a + b + 2 ^ 31) mod 2 ^ 32 = ((a + 2 ^ 31) mod 2 ^ 32 + b) mod 2 ^ 32"
    by (simp add: c_int_def)
  also have "\<dots> = (a + 2 ^ 31 + b) mod 2 ^ 32"
    by (rule mod_add_left_eq)
  also have "\<dots> = (a + b + 2 ^ 31) mod 2 ^ 32"
    by (simp add: ac_simps)
  finally show ?thesis unfolding c_int_def [of "c_int a + b"] c_int_def [of "a + b"] by simp
qed

lemma c_int_add_right: "c_int (a + c_int b) = c_int (a + b)"
  using c_int_add_left [of b a] by (simp add: add.commute)

lemma c_int_range: "- (2 ^ 31) \<le> c_int i \<and> c_int i < 2 ^ 31"
proof -
  have "0 \<le> (i + 2 ^ 31) mod 2 ^ 32" and "(i + 2 ^ 31) mod 2 ^ 32 < 2 ^ 32"
    by simp_all
  then show ?thesis unfolding c_int_def by simp
qed

lemma count_up_0: "count_up 0 x = x"
  by (simp add: count_up_def)

lemma count_up_Suc: "count_up (Suc k) x = count_up k (c_int (x + 1))"
  unfolding count_up_def by (simp only: funpow_Suc_right o_apply)

lemma count_up_Suc_right: "count_up (Suc k) x = c_int (count_up k x + 1)"
  by (simp add: count_up_def)

lemma count_up_c_int: "count_up k (c_int x) = c_int (x + int k)"
proof (induction k)
  case 0
  show ?case by (simp add: count_up_0)
next
  case (Suc k)
  have "count_up (Suc k) (c_int x) = c_int (c_int (x + int k) + 1)"
    by (simp only: count_up_Suc_right Suc.IH)
  also have "\<dots> = c_int (x + int k + 1)"
    by (rule c_int_add_left)
  also have "\<dots> = c_int (x + int (Suc k))"
    by (simp add: ac_simps)
  finally show ?case .
qed

lemma count_up_zero: "count_up k 0 = c_int (int k)"
  using count_up_c_int [of k 0] by (simp add: c_int_def)

lemma count_up_exact:
  "- (2 ^ 31) \<le> x \<Longrightarrow> x + int k < 2 ^ 31 \<Longrightarrow> count_up k x = x + int k"
proof -
  assume a: "- (2 ^ 31) \<le> x" and b: "x + int k < 2 ^ 31"
  then have "c_int x = x" by (intro c_int_id) simp_all
  then have "count_up k x = c_int (x + int k)" using count_up_c_int [of k x] by simp
  also have "\<dots> = x + int k" using a b by (intro c_int_id) simp_all
  finally show ?thesis .
qed

section \<open>Lines and records of a text\<close>

lemma call_read_func_Some:
  "chars (fst (call_read_func g (Some s))) = line_of g s \<and>
   snd (call_read_func g (Some s)) = Some (drop (length (line_of g s)) s)"
proof (cases "read_func g")
  case Readln
  then show ?thesis
    using readln_loop_next_line [of s "[]" block_size
        "fst (readln (Some s))" "snd (readln (Some s))"]
    by (simp add: call_read_func_def line_of_def readln_def)
next
  case Readln_unsafe
  then show ?thesis
    by (simp add: call_read_func_def line_of_def readln_unsafe_def gzgets_def Let_def)
qed

lemma call_read_func_None:
  "chars (fst (call_read_func g None)) = [] \<and> snd (call_read_func g None) = None"
  by (cases "read_func g")
    (simp_all add: call_read_func_def readln_def readln_loop.simps [of None]
      readln_unsafe_def gzgets_def)

lemma line_of_Nil: "line_of g [] = []"
  by (cases "read_func g") (simp_all add: line_of_def next_line_Nil gets_chunk_Nil)

lemma read_fastq_Nil: "chars (header (fst (read_fastq g (Some [])))) = []"
  by (simp add: read_fastq_def case_prod_beta call_read_func_Some line_of_Nil)

lemma read_fastq_None: "chars (header (fst (read_fastq g None))) = []"
  by (simp add: read_fastq_def case_prod_beta call_read_func_None)

lemma read_fastq_open: "\<exists>rest. snd (read_fastq g (Some s)) = Some rest"
  by (simp add: read_fastq_def case_prod_beta call_read_func_Some)

lemma n_records_zero:
  "n_records g f = 0 \<longleftrightarrow> chars (header (fst (read_fastq g f))) = []"
  by (simp add: n_records.simps [of g f] case_prod_beta)

lemma n_records_Suc:
  "chars (header (fst (read_fastq g f))) \<noteq> [] \<Longrightarrow>
     n_records g f = Suc (n_records g (snd (read_fastq g f)))"
  by (simp add: n_records.simps [of g f] case_prod_beta)

lemma text_lines_empty: "text_lines s = [] \<longleftrightarrow> s = []"
  by (induction s) (auto split: list.splits)

lemma text_lines_unfold:
  "s \<noteq> [] \<Longrightarrow> text_lines s = next_line s # text_lines (drop (length (next_line s)) s)"
proof (induction s)
  case Nil
  then show ?case by simp
next
  case (Cons c cs)
  show ?case
  proof (cases "c = newline")
    case True
    then show ?thesis by (simp add: next_line_Cons)
  next
    case False
    show ?thesis
    proof (cases "cs = []")
      case True
      then show ?thesis using False by (simp add: next_line_Cons next_line_Nil)
    next
      case F: False
      from Cons.IH [OF F] False show ?thesis by (simp add: next_line_Cons)
    qed
  qed
qed

lemma text_lines_drop_length:
  "length (text_lines (drop (length (next_line s)) s)) = length (text_lines s) - 1"
  by (cases "s = []") (simp_all add: text_lines_unfold)

lemma text_lines_blank: "text_lines (replicate n newline) = replicate n [newline]"
  by (induction n) simp_all

lemma gets_chunk_next_line:
  "length (next_line s) \<le> n \<Longrightarrow> gets_chunk n s = next_line s"
  by (induction n s rule: gets_chunk.induct) (auto simp: next_line_Nil next_line_Cons)

lemma whole_lines_drop:
  "whole_lines g s \<Longrightarrow> whole_lines g (drop (length (next_line s)) s)"
  by (cases "s = []") (auto simp: whole_lines_def text_lines_unfold)

lemma line_of_whole:
  assumes "whole_lines g s"
  shows "line_of g s = next_line s"
proof (cases "s = []")
  case True
  then show ?thesis by (simp add: line_of_Nil next_line_Nil)
next
  case False
  then have "next_line s \<in> set (text_lines s)" by (simp add: text_lines_unfold)
  then have "length (next_line s) \<le> line_limit g" using assms by (auto simp: whole_lines_def)
  then show ?thesis
    by (cases "read_func g") (simp_all add: line_of_def line_limit_def gets_chunk_next_line)
qed

lemma call_read_func_whole:
  assumes "whole_lines g s"
  shows "chars (fst (call_read_func g (Some s))) = next_line s"
    and "snd (call_read_func g (Some s)) = Some (drop (length (next_line s)) s)"
  using call_read_func_Some [of g s] line_of_whole [OF assms] by simp_all

lemma read_fastq_whole:
  assumes "whole_lines g s"
  shows "chars (header (fst (read_fastq g (Some s)))) = next_line s"
    and "\<exists>rest. snd (read_fastq g (Some s)) = Some rest \<and> whole_lines g rest \<and>
           length rest \<le> length s - length (next_line s) \<and>
           length (text_lines rest) = length (text_lines s) - 4"
proof -
  define s1 where "s1 = drop (length (next_line s)) s"
  define s2 where "s2 = drop (length (next_line s1)) s1"
  define s3 where "s3 = drop (length (next_line s2)) s2"
  define s4 where "s4 = drop (length (next_line s3)) s3"
  have w1: "whole_lines g s1" unfolding s1_def using assms by (rule whole_lines_drop)
  have w2: "whole_lines g s2" unfolding s2_def using w1 by (rule whole_lines_drop)
  have w3: "whole_lines g s3" unfolding s3_def using w2 by (rule whole_lines_drop)
  have w4: "whole_lines g s4" unfolding s4_def using w3 by (rule whole_lines_drop)
  have c1: "snd (call_read_func g (Some s)) = Some s1"
    unfolding s1_def by (rule call_read_func_whole(2) [OF assms])
  have c2: "snd (call_read_func g (Some s1)) = Some s2"
    unfolding s2_def by (rule call_read_func_whole(2) [OF w1])
  have c3: "snd (call_read_func g (Some s2)) = Some s3"
    unfolding s3_def by (rule call_read_func_whole(2) [OF w2])
  have c4: "snd (call_read_func g (Some s3)) = Some s4"
    unfolding s4_def by (rule call_read_func_whole(2) [OF w3])
  note c = c1 c2 c3 c4
  show "chars (header (fst (read_fastq g (Some s)))) = next_line s"
    by (simp add: read_fastq_def case_prod_beta call_read_func_whole [OF assms])
  have r: "snd (read_fastq g (Some s)) = Some s4"
    by (simp add: read_fastq_def case_prod_beta c)
  have l: "length s4 \<le> length s - length (next_line s)"
    unfolding s4_def s3_def s2_def s1_def by simp
  have n: "length (text_lines s4) = length (text_lines s) - 4"
    unfolding s4_def s3_def s2_def s1_def by (simp only: text_lines_drop_length)
  from r w4 l n
  show "\<exists>rest. snd (read_fastq g (Some s)) = Some rest \<and> whole_lines g rest \<and>
           length rest \<le> length s - length (next_line s) \<and>
           length (text_lines rest) = length (text_lines s) - 4"
    by blast
qed

lemma n_records_whole: "whole_lines g s \<Longrightarrow> n_records g (Some s) = record_count s"
proof (induction s rule: length_induct)
  case (1 s)
  show ?case
  proof (cases "s = []")
    case True
    then show ?thesis by (simp add: n_records_zero read_fastq_Nil record_count_def)
  next
    case False
    from read_fastq_whole(2) [OF "1.prems"] obtain rest
      where r: "snd (read_fastq g (Some s)) = Some rest" "whole_lines g rest"
        "length rest \<le> length s - length (next_line s)"
        "length (text_lines rest) = length (text_lines s) - 4" by blast
    have "next_line s \<noteq> []" using False by (simp add: next_line_empty)
    then have "0 < length (next_line s)" by simp
    moreover have "0 < length s" using False by simp
    ultimately have less: "length rest < length s" using r(3) by linarith
    have h: "chars (header (fst (read_fastq g (Some s)))) \<noteq> []"
      using read_fastq_whole(1) [OF "1.prems"] False by (simp add: next_line_empty)
    have "text_lines s \<noteq> []" using False by (simp add: text_lines_empty)
    then have pos: "0 < length (text_lines s)" by simp
    have "n_records g (Some s) = Suc (n_records g (Some rest))"
      using n_records_Suc [OF h] r(1) by simp
    also have "\<dots> = Suc (record_count rest)"
      using "1.IH" less r(2) by simp
    also have "\<dots> = record_count s"
      using pos unfolding record_count_def r(4) by arith
    finally show ?thesis .
  qed
qed

lemma whole_lines_blank: "whole_lines g (blank_records n)"
  by (cases "read_func g")
    (simp_all add: whole_lines_def blank_records_def text_lines_blank line_limit_def
      unsafe_block_size_def)

lemma record_count_blank: "record_count (blank_records n) = n"
  by (simp add: record_count_def blank_records_def text_lines_blank)

section \<open>Runs of the filter loop\<close>

text \<open>Equations that evaluate a run on a given input.\<close>

lemma gets_chunk_numeral:
  "gets_chunk (numeral k) (c # cs) =
     (if c = newline then [c] else c # gets_chunk (pred_numeral k) cs)"
  by (simp add: numeral_eq_Suc)

lemmas run_simps =
  filter_fastqs_def filter_loop.simps filter_iteration_def initial_state_def
  read_fastq_def call_read_func_def readln_def readln_loop.simps gzgets_def block_size_def
  gets_chunk_numeral gets_chunk_Nil call_check_func_def std_check_read_def strlen_def
  size_t_of_int_def c_int_def call_include_func_def std_include_def fputs_def fclose_def
  then_ub_def log_message_def default_globals_def record_text_def Let_def

lemma filter_iteration_end:
  assumes "chars (header (fst (read_fastq g (r1i st)))) = [] \<or>
           chars (header (fst (read_fastq g (r2i st)))) = []"
  shows "filter_iteration g st =
     then_ub (fclose (r1o st)) (\<lambda>w1.
     then_ub (fclose (r2o st)) (\<lambda>w2.
       Inr (Returned
         \<lparr>ret_val = (if (chars (header (fst (read_fastq g (r1i st)))) = []) \<noteq>
                         (chars (header (fst (read_fastq g (r2i st)))) = []) then 1 else 0),
          checked = read_pairs_checked st,
          removed = read_pairs_removed st,
          remaining = read_pairs_remaining st,
          r1_filtered = w1,
          r2_filtered = w2,
          logged = (if (chars (header (fst (read_fastq g (r1i st)))) = []) \<noteq>
                       (chars (header (fst (read_fastq g (r2i st)))) = [])
                    then log_message g
                           (Differing_reads_from_line (c_int (read_pairs_checked st * 4)))
                           (console st)
                    else console st),
          closed = [R1i, R2i, R1o, R2o]\<rparr>)))"
  using assms unfolding filter_iteration_def case_prod_beta Let_def by simp

lemma filter_iteration_pair:
  assumes "chars (header (fst (read_fastq g (r1i st)))) \<noteq> []"
      and "chars (header (fst (read_fastq g (r2i st)))) \<noteq> []"
  shows "filter_iteration g st =
     then_ub (call_check_func g (fst (read_fastq g (r1i st))) (fst (read_fastq g (r2i st))))
       (\<lambda>keep.
          if keep
          then then_ub (call_include_func (include_func_r1 g) g
                          (fst (read_fastq g (r1i st))) (r1o st)) (\<lambda>o1.
               then_ub (call_include_func (include_func_r2 g) g
                          (fst (read_fastq g (r2i st))) (r2o st)) (\<lambda>o2.
               Inr (Running
                 (st\<lparr>r1i := snd (read_fastq g (r1i st)), r2i := snd (read_fastq g (r2i st)),
                     r1o := o1, r2o := o2,
                     read_pairs_checked := c_int (read_pairs_checked st + 1),
                     read_pairs_remaining := c_int (read_pairs_remaining st + 1)\<rparr>))))
          else Inr (Running
                 (st\<lparr>r1i := snd (read_fastq g (r1i st)), r2i := snd (read_fastq g (r2i st)),
                     read_pairs_checked := c_int (read_pairs_checked st + 1),
                     read_pairs_removed := c_int (read_pairs_removed st + 1)\<rparr>)))"
  using assms unfolding filter_iteration_def case_prod_beta Let_def by simp

lemma filter_iteration_Running_counters:
  assumes "filter_iteration g st = Inr (Running st')"
  shows "read_pairs_checked st' = c_int (read_pairs_checked st + 1) \<and>
         ((read_pairs_removed st' = c_int (read_pairs_removed st + 1) \<and>
           read_pairs_remaining st' = read_pairs_remaining st) \<or>
          (read_pairs_removed st' = read_pairs_removed st \<and>
           read_pairs_remaining st' = c_int (read_pairs_remaining st + 1))) \<and>
         console st' = console st"
proof -
  have ne: "chars (header (fst (read_fastq g (r1i st)))) \<noteq> []"
           "chars (header (fst (read_fastq g (r2i st)))) \<noteq> []"
    using filter_iteration_Running [OF assms] by simp_all
  show ?thesis
    using assms unfolding filter_iteration_pair [OF ne]
    by (auto simp: then_ub_def split: sum.splits if_splits)
qed

lemma filter_iteration_Running_records:
  assumes "filter_iteration g st = Inr (Running st')"
  shows "n_records g (r1i st) = Suc (n_records g (r1i st')) \<and>
         n_records g (r2i st) = Suc (n_records g (r2i st'))"
  using filter_iteration_Running [OF assms] by (simp add: n_records_Suc)

lemma filter_iteration_Returned:
  assumes "filter_iteration g st = Inr (Returned res)"
  shows "(n_records g (r1i st) = 0 \<or> n_records g (r2i st) = 0) \<and>
         ret_val res = (if n_records g (r1i st) = n_records g (r2i st) then 0 else 1) \<and>
         checked res = read_pairs_checked st \<and>
         removed res = read_pairs_removed st \<and>
         remaining res = read_pairs_remaining st \<and>
         logged res = (if n_records g (r1i st) = n_records g (r2i st) then console st
                       else log_message g (Differing_reads_from_line (c_int (checked res * 4)))
                              (console st)) \<and>
         closed res = [R1i, R2i, R1o, R2o] \<and>
         r1o st = Some (r1_filtered res) \<and> r2o st = Some (r2_filtered res)"
proof (cases "chars (header (fst (read_fastq g (r1i st)))) = [] \<or>
           chars (header (fst (read_fastq g (r2i st)))) = []")
  case True
  have z: "(n_records g (r1i st) = n_records g (r2i st)) \<longleftrightarrow>
     \<not> ((chars (header (fst (read_fastq g (r1i st)))) = []) \<noteq>
        (chars (header (fst (read_fastq g (r2i st)))) = []))"
    using True n_records_zero [of g "r1i st"] n_records_zero [of g "r2i st"] by auto
  show ?thesis
    using assms True z unfolding filter_iteration_end [OF True]
    by (auto simp: then_ub_def fclose_def n_records_zero split: sum.splits option.splits)
next
  case False
  then have ne: "chars (header (fst (read_fastq g (r1i st)))) \<noteq> []"
           "chars (header (fst (read_fastq g (r2i st)))) \<noteq> []" by simp_all
  show ?thesis
    using assms unfolding filter_iteration_pair [OF ne]
    by (auto simp: then_ub_def split: sum.splits if_splits)
qed

lemma filter_loop_result:
  "filter_loop g st = Inr res \<Longrightarrow>
     checked res =
        count_up (min (n_records g (r1i st)) (n_records g (r2i st))) (read_pairs_checked st) \<and>
     ret_val res = (if n_records g (r1i st) = n_records g (r2i st) then 0 else 1) \<and>
     logged res = (if n_records g (r1i st) = n_records g (r2i st) then console st
                   else log_message g (Differing_reads_from_line (c_int (checked res * 4)))
                          (console st)) \<and>
     closed res = [R1i, R2i, R1o, R2o]"
proof (induction g st arbitrary: res rule: filter_loop.induct)
  case (1 g st)
  show ?case
  proof (cases "filter_iteration g st")
    case (Inl e)
    with "1.prems" show ?thesis by (simp add: filter_loop.simps [of g st])
  next
    case (Inr x)
    show ?thesis
    proof (cases x)
      case (Returned r)
      then have "r = res" using Inr "1.prems" by (simp add: filter_loop.simps [of g st])
      then show ?thesis using filter_iteration_Returned [of g st res] Inr Returned
        by (auto simp: count_up_0)
    next
      case (Running st')
      then have loop: "filter_loop g st' = Inr res"
        using Inr "1.prems" by (simp add: filter_loop.simps [of g st])
      have it: "filter_iteration g st = Inr (Running st')" using Inr Running by simp
      from "1.IH" [OF Inr Running loop] filter_iteration_Running_counters [OF it]
        filter_iteration_Running_records [OF it]
      show ?thesis by (auto simp: count_up_Suc)
    qed
  qed
qed

lemma std_include_Some: "std_include r (Some w) = Inr (Some (w @ flat r))"
  by (simp add: std_include_def fputs_def then_ub_def flat_def)

lemma std_include_None: "std_include r None = Inl Null_stream"
  by (simp add: std_include_def fputs_def then_ub_def)

lemma filter_iteration_plain_pair:
  assumes "threshold_only g"
      and "chars (header (fst (read_fastq g (r1i st)))) \<noteq> []"
      and "chars (header (fst (read_fastq g (r2i st)))) \<noteq> []"
      and "r1o st = Some w1" and "r2o st = Some w2"
  shows "filter_iteration g st = Inr (Running
     (if std_check_read g (fst (read_fastq g (r1i st))) (fst (read_fastq g (r2i st)))
      then st\<lparr>r1i := snd (read_fastq g (r1i st)), r2i := snd (read_fastq g (r2i st)),
              r1o := Some (w1 @ flat (fst (read_fastq g (r1i st)))),
              r2o := Some (w2 @ flat (fst (read_fastq g (r2i st)))),
              read_pairs_checked := c_int (read_pairs_checked st + 1),
              read_pairs_remaining := c_int (read_pairs_remaining st + 1)\<rparr>
      else st\<lparr>r1i := snd (read_fastq g (r1i st)), r2i := snd (read_fastq g (r2i st)),
              read_pairs_checked := c_int (read_pairs_checked st + 1),
              read_pairs_removed := c_int (read_pairs_removed st + 1)\<rparr>))"
  using assms(1,4,5) unfolding filter_iteration_pair [OF assms(2,3)]
  by (simp add: threshold_only_def call_check_func_def call_include_func_def
      std_include_Some then_ub_def)

lemma filter_iteration_end_Some:
  assumes "chars (header (fst (read_fastq g (r1i st)))) = [] \<or>
           chars (header (fst (read_fastq g (r2i st)))) = []"
      and "r1o st = Some w1" and "r2o st = Some w2"
  shows "\<exists>res. filter_iteration g st = Inr (Returned res)"
  using assms(2,3) unfolding filter_iteration_end [OF assms(1)]
  by (simp add: then_ub_def fclose_def)

lemma filter_loop_returns:
  "threshold_only g \<Longrightarrow> r1o st \<noteq> None \<Longrightarrow> r2o st \<noteq> None \<Longrightarrow>
     \<exists>res. filter_loop g st = Inr res"
proof (induction g st rule: filter_loop.induct)
  case (1 g st)
  obtain w1 w2 where w: "r1o st = Some w1" "r2o st = Some w2" using "1.prems" by auto
  show ?case
  proof (cases "chars (header (fst (read_fastq g (r1i st)))) = [] \<or>
           chars (header (fst (read_fastq g (r2i st)))) = []")
    case True
    from filter_iteration_end_Some [OF True w] obtain res
      where "filter_iteration g st = Inr (Returned res)" by blast
    then show ?thesis by (simp add: filter_loop.simps [of g st])
  next
    case False
    then have ne: "chars (header (fst (read_fastq g (r1i st)))) \<noteq> []"
           "chars (header (fst (read_fastq g (r2i st)))) \<noteq> []" by simp_all
    from filter_iteration_plain_pair [OF "1.prems"(1) ne w] obtain st'
      where it: "filter_iteration g st = Inr (Running st')"
        and o: "r1o st' \<noteq> None" "r2o st' \<noteq> None"
      by (cases "std_check_read g (fst (read_fastq g (r1i st))) (fst (read_fastq g (r2i st)))")
         (simp_all add: w)
    from "1.IH" [OF it refl "1.prems"(1) o] show ?thesis
      using it by (simp add: filter_loop.simps [of g st])
  qed
qed

text \<open>
  Without an output stream the run has no defined result: the pair that is kept is
  written to a null stream, and at the end a null stream is closed.
\<close>

lemma filter_loop_null_output:
  "r1o st = None \<or> r2o st = None \<Longrightarrow> \<exists>e. filter_loop g st = Inl e"
proof (induction g st rule: filter_loop.induct)
  case (1 g st)
  show ?case
  proof (cases "filter_iteration g st")
    case (Inl e)
    then show ?thesis by (simp add: filter_loop.simps [of g st])
  next
    case (Inr x)
    show ?thesis
    proof (cases x)
      case (Returned res)
      then have "r1o st \<noteq> None \<and> r2o st \<noteq> None"
        using filter_iteration_Returned [of g st res] Inr by simp
      with "1.prems" show ?thesis by simp
    next
      case (Running st')
      have it: "filter_iteration g st = Inr (Running st')" using Inr Running by simp
      have ne: "chars (header (fst (read_fastq g (r1i st)))) \<noteq> []"
           "chars (header (fst (read_fastq g (r2i st)))) \<noteq> []"
        using filter_iteration_Running [OF it] by simp_all
      have "r1o st' = None \<or> r2o st' = None"
        using it "1.prems" unfolding filter_iteration_pair [OF ne]
        by (auto simp: then_ub_def call_include_func_def std_include_None
            trim_include_r1_def trim_include_r2_def trim_include_def
            split: sum.splits if_splits include_fn.splits)
      from "1.IH" [OF Inr Running this] show ?thesis
        using it by (simp add: filter_loop.simps [of g st])
    qed
  qed
qed

text \<open>
  The loop returns unless one of its rounds is undefined (a comparison with a null tile
  id, a write outside a block or to a null stream).
\<close>

lemma filter_loop_returns_unless_undefined:
  "(\<forall>n st' e. after_iterations g n st = Some st' \<longrightarrow> filter_iteration g st' \<noteq> Inl e) \<Longrightarrow>
     \<exists>res. filter_loop g st = Inr res"
proof (induction g st rule: filter_loop.induct)
  case (1 g st)
  have "after_iterations g 0 st = Some st" by simp
  then have d: "\<forall>e. filter_iteration g st \<noteq> Inl e" using "1.prems" by blast
  show ?case
  proof (cases "filter_iteration g st")
    case (Inl e)
    with d show ?thesis by simp
  next
    case (Inr x)
    show ?thesis
    proof (cases x)
      case (Returned res)
      then show ?thesis using Inr by (simp add: filter_loop.simps [of g st])
    next
      case (Running mid)
      have "\<forall>n st' e. after_iterations g n mid = Some st' \<longrightarrow> filter_iteration g st' \<noteq> Inl e"
      proof (intro allI impI)
        fix n st' e
        assume "after_iterations g n mid = Some st'"
        then have "after_iterations g (Suc n) st = Some st'" using Inr Running by simp
        then show "filter_iteration g st' \<noteq> Inl e" using "1.prems" by blast
      qed
      from "1.IH" [OF Inr Running this] show ?thesis
        using Inr Running by (simp add: filter_loop.simps [of g st])
    qed
  qed
qed

lemma filter_loop_open:
  assumes "filter_loop g st = Inr res"
    and "r1i st = Some s1" and "r2i st = Some s2"
    and "whole_lines g s1" and "whole_lines g s2"
  shows "ret_val res = (if record_count s1 = record_count s2 then 0 else 1)"
    and "closed res = [R1i, R2i, R1o, R2o]"
    and "checked res = count_up (min (record_count s1) (record_count s2)) (read_pairs_checked st)"
    and "logged res =
           (if record_count s1 = record_count s2 then console st
            else log_message g (Differing_reads_from_line (c_int (checked res * 4))) (console st))"
  using filter_loop_result [OF assms(1)] assms(2,3)
    n_records_whole [OF assms(4)] n_records_whole [OF assms(5)]
  by simp_all

text \<open>
  C2, as the code has it. Take two open streams of text lines that the reader returns
  whole. Whenever the run returns, its status is 1 exactly when the two texts begin
  different numbers of records (a last record that lacks lines counts as a record) and 0
  otherwise, and all four streams were closed. Below \<open>2^31\<close> pairs the counter
  \<open>checked\<close> is the smaller of the two numbers of records. Below \<open>2^29\<close> pairs the
  console holds the line offset \<open>checked * 4\<close> exactly when the status is 1 and the run
  is not quiet, and nothing otherwise. The run returns whenever no round of the loop is
  undefined, and so always with the length predicate and no trimming on open output
  streams.
\<close>

theorem filter_fastqs_desync:
  assumes "whole_lines g s1" and "whole_lines g s2"
  shows "(\<forall>res. filter_fastqs g (Some s1) (Some s2) o1 o2 = Inr res \<longrightarrow>
            ret_val res = (if record_count s1 = record_count s2 then 0 else 1) \<and>
            closed res = [R1i, R2i, R1o, R2o] \<and>
            (min (record_count s1) (record_count s2) < 2 ^ 31 \<longrightarrow>
               checked res = int (min (record_count s1) (record_count s2))) \<and>
            (min (record_count s1) (record_count s2) < 2 ^ 29 \<longrightarrow>
               logged res =
                 (if record_count s1 = record_count s2 \<or> quiet g then []
                  else [Differing_reads_from_line
                          (4 * int (min (record_count s1) (record_count s2)))]))) \<and>
         ((\<forall>n st e. after_iterations g n (initial_state (Some s1) (Some s2) o1 o2) = Some st \<longrightarrow>
              filter_iteration g st \<noteq> Inl e) \<longrightarrow>
            (\<exists>res. filter_fastqs g (Some s1) (Some s2) o1 o2 = Inr res)) \<and>
         (threshold_only g \<longrightarrow>
            (\<exists>res. filter_fastqs g (Some s1) (Some s2) (Some w1) (Some w2) = Inr res))"
proof (intro conjI allI impI)
  fix res
  let ?m = "min (record_count s1) (record_count s2)"
  assume "filter_fastqs g (Some s1) (Some s2) o1 o2 = Inr res"
  then have l: "filter_loop g (initial_state (Some s1) (Some s2) o1 o2) = Inr res"
    by (simp add: filter_fastqs_def)
  have i: "r1i (initial_state (Some s1) (Some s2) o1 o2) = Some s1"
    "r2i (initial_state (Some s1) (Some s2) o1 o2) = Some s2"
    by (simp_all add: initial_state_def)
  note f = filter_loop_open [OF l i assms]
  show "ret_val res = (if record_count s1 = record_count s2 then 0 else 1)" by (rule f(1))
  show "closed res = [R1i, R2i, R1o, R2o]" by (rule f(2))
  have c: "checked res = count_up ?m 0" using f(3) by (simp add: initial_state_def)
  show "checked res = int ?m" if "?m < 2 ^ 31"
  proof -
    have "int ?m < 2 ^ 31" using that by (simp only: of_nat_less_numeral_power_cancel_iff)
    then show ?thesis using c count_up_exact [of 0 ?m] by simp
  qed
  show "logged res =
                 (if record_count s1 = record_count s2 \<or> quiet g then []
                  else [Differing_reads_from_line (4 * int ?m)])" if "?m < 2 ^ 29"
  proof -
    have b: "int ?m < 2 ^ 29" using that by (simp only: of_nat_less_numeral_power_cancel_iff)
    then have "checked res = int ?m" using c count_up_exact [of 0 ?m] by simp
    moreover have "c_int (int ?m * 4) = int ?m * 4" using b by (intro c_int_id) simp_all
    ultimately show ?thesis
      using f(4) by (simp add: initial_state_def log_message_def mult.commute)
  qed
next
  assume "\<forall>n st e. after_iterations g n (initial_state (Some s1) (Some s2) o1 o2) = Some st \<longrightarrow>
        filter_iteration g st \<noteq> Inl e"
  from filter_loop_returns_unless_undefined [OF this]
  show "\<exists>res. filter_fastqs g (Some s1) (Some s2) o1 o2 = Inr res"
    by (simp add: filter_fastqs_def)
next
  assume "threshold_only g"
  then show "\<exists>res. filter_fastqs g (Some s1) (Some s2) (Some w1) (Some w2) = Inr res"
    using filter_loop_returns [of g "initial_state (Some s1) (Some s2) (Some w1) (Some w2)"]
    by (simp add: filter_fastqs_def initial_state_def)
qed

lemma whole_lines_three_reads: "whole_lines (default_globals 5) three_reads"
  by (simp add: whole_lines_def line_limit_def default_globals_def three_reads_def
      record_text_def)

lemma whole_lines_two_reads: "whole_lines (default_globals 5) two_reads"
  by (simp add: whole_lines_def line_limit_def default_globals_def two_reads_def
      record_text_def)

lemma record_count_three_reads: "record_count three_reads = 3"
  by (simp add: record_count_def three_reads_def record_text_def)

lemma record_count_two_reads: "record_count two_reads = 2"
  by (simp add: record_count_def two_reads_def record_text_def)

theorem filter_fastqs_desync_witness:
  "(\<exists>res. filter_fastqs (default_globals 5) (Some three_reads) (Some two_reads)
            (Some []) (Some []) = Inr res \<and>
         ret_val res = 1 \<and> checked res = 2 \<and>
         logged res = [Differing_reads_from_line 8] \<and>
         closed res = [R1i, R2i, R1o, R2o]) \<and>
   (\<exists>res. filter_fastqs (default_globals 5) (Some two_reads) (Some two_reads)
            (Some []) (Some []) = Inr res \<and>
         ret_val res = 0 \<and> checked res = 2 \<and> logged res = [] \<and>
         closed res = [R1i, R2i, R1o, R2o])"
proof -
  have p: "threshold_only (default_globals 5)"
    by (simp add: threshold_only_def default_globals_def)
  have q: "\<not> quiet (default_globals 5)" by (simp add: default_globals_def)
  note t32 = filter_fastqs_desync [OF whole_lines_three_reads whole_lines_two_reads,
      of "Some []" "Some []" "[]" "[]"]
  note t22 = filter_fastqs_desync [OF whole_lines_two_reads whole_lines_two_reads,
      of "Some []" "Some []" "[]" "[]"]
  from t32 p obtain res
    where r: "filter_fastqs (default_globals 5) (Some three_reads) (Some two_reads)
            (Some []) (Some []) = Inr res" by blast
  from t32 r have a: "ret_val res = 1 \<and> checked res = 2 \<and>
         logged res = [Differing_reads_from_line 8] \<and>
         closed res = [R1i, R2i, R1o, R2o]"
    using q by (simp add: record_count_three_reads record_count_two_reads)
  from t22 p obtain res'
    where r': "filter_fastqs (default_globals 5) (Some two_reads) (Some two_reads)
            (Some []) (Some []) = Inr res'" by blast
  from t22 r' have b: "ret_val res' = 0 \<and> checked res' = 2 \<and> logged res' = [] \<and>
         closed res' = [R1i, R2i, R1o, R2o]"
    by (simp add: record_count_two_reads)
  from r a r' b show ?thesis by blast
qed

lemma blank_run_report:
  assumes "n < m"
  shows "report (filter_fastqs (default_globals 5) (Some (blank_records m))
           (Some (blank_records n)) (Some []) (Some [])) =
         Some (1, c_int (int n), [Differing_reads_from_line (c_int (c_int (int n) * 4))])"
proof -
  let ?g = "default_globals 5"
  let ?st = "initial_state (Some (blank_records m)) (Some (blank_records n)) (Some []) (Some [])"
  have p: "threshold_only ?g" by (simp add: threshold_only_def default_globals_def)
  have q: "\<not> quiet ?g" by (simp add: default_globals_def)
  obtain res where l: "filter_loop ?g ?st = Inr res"
    using filter_loop_returns [OF p, of ?st] by (auto simp: initial_state_def)
  have i: "r1i ?st = Some (blank_records m)" "r2i ?st = Some (blank_records n)"
    by (simp_all add: initial_state_def)
  note f = filter_loop_open [OF l i whole_lines_blank whole_lines_blank]
  have "ret_val res = 1" using f(1) assms by (simp add: record_count_blank)
  moreover have c: "checked res = c_int (int n)"
    using f(3) assms by (simp add: record_count_blank initial_state_def count_up_zero min_def)
  moreover have "logged res = [Differing_reads_from_line (c_int (c_int (int n) * 4))]"
    using f(4) assms q c by (simp add: record_count_blank initial_state_def log_message_def)
  ultimately show ?thesis using l by (simp add: report_def filter_fastqs_def)
qed

text \<open>
  The claim as stated fails in three ways. A stream that ends inside a record still
  delivers that record: when mate 2 is cut after the header line of its third record,
  mate 1 has three complete records and mate 2 has two, but the third pair is read and
  removed and the run returns 0 with \<open>checked = 3\<close>. A quiet run returns 1 on a mismatch
  and reports no offset. And after \<open>2^29\<close> pairs the product \<open>checked * 4\<close> exceeds the
  range of \<^verbatim>\<open>int\<close>: the offset reported is negative.
\<close>

theorem filter_fastqs_desync_unreported:
  "complete_records three_reads = 3 \<and>
   complete_records (two_reads @ ''@c'' @ [newline]) = 2 \<and>
   report (filter_fastqs (default_globals 5) (Some three_reads)
             (Some (two_reads @ ''@c'' @ [newline])) (Some []) (Some [])) =
     Some (0, 3, []) \<and>
   report (filter_fastqs ((default_globals 5)\<lparr>quiet := True\<rparr>) (Some three_reads)
             (Some two_reads) (Some []) (Some [])) =
     Some (1, 2, []) \<and>
   report (filter_fastqs (default_globals 5) (Some (blank_records 536870913))
             (Some (blank_records 536870912)) (Some []) (Some [])) =
     Some (1, 536870912, [Differing_reads_from_line (- 2147483648)])"
proof -
  have a: "complete_records three_reads = 3"
    by (simp add: complete_records_def three_reads_def record_text_def)
  have b: "complete_records (two_reads @ ''@c'' @ [newline]) = 2"
    by (simp add: complete_records_def two_reads_def record_text_def)
  have c: "report (filter_fastqs (default_globals 5) (Some three_reads)
             (Some (two_reads @ ''@c'' @ [newline])) (Some []) (Some [])) =
     Some (0, 3, [])"
    by (simp add: report_def run_simps three_reads_def two_reads_def)
  have d: "report (filter_fastqs ((default_globals 5)\<lparr>quiet := True\<rparr>) (Some three_reads)
             (Some two_reads) (Some []) (Some [])) =
     Some (1, 2, [])"
    by (simp add: report_def run_simps three_reads_def two_reads_def)
  have e: "report (filter_fastqs (default_globals 5) (Some (blank_records 536870913))
             (Some (blank_records 536870912)) (Some []) (Some [])) =
     Some (1, 536870912, [Differing_reads_from_line (- 2147483648)])"
    using blank_run_report [of 536870912 536870913] by (simp add: c_int_def)
  from a b c d e show ?thesis by blast
qed

lemma n_records_None: "n_records g None = 0"
proof -
  have "chars (fst (call_read_func g None)) = [] \<and> snd (call_read_func g None) = None"
    by (rule call_read_func_None)
  then have "chars (header (fst (read_fastq g None))) = []"
    by (simp add: read_fastq_def case_prod_beta)
  then show ?thesis by (simp add: n_records_zero)
qed

lemma n_records_delivered: "whole_lines_stream g f \<Longrightarrow> n_records g f = delivered f"
  by (cases f) (simp_all add: whole_lines_stream_def delivered_def n_records_None n_records_whole)

text \<open>The derived output path never fits the block allocated for it.\<close>

lemma build_output_path_overflow: "build_output_path p = Inl Out_of_bounds"
proof (cases "p = []")
  case True
  then show ?thesis by (simp add: build_output_path_def)
next
  case False
  let ?e = "if last p = CHR ''z'' then 9 else (6::nat)"
  let ?b = "(length p + 2 ^ 64 - ?e) mod 2 ^ 64"
  have "(?b + 15) mod 2 ^ 64 < ?b + 1 \<or>
        (?b + 15) mod 2 ^ 64 < length (take ?b p @ ''_filtered.fastq'') + 1"
  proof (cases "?b \<le> length p")
    case True
    have "(?b + 15) mod 2 ^ 64 \<le> ?b + 15" by (rule mod_less_eq_dividend)
    moreover have "length (take ?b p @ ''_filtered.fastq'') = ?b + 15" using True by simp
    ultimately show ?thesis by linarith
  next
    case F: False
    have e: "?e \<le> 9" by simp
    have "length p < ?e"
    proof (rule ccontr)
      assume "\<not> length p < ?e"
      then have "?e \<le> length p" by simp
      then have "length p + 2 ^ 64 - ?e = (length p - ?e) + 1 * 2 ^ 64" by simp
      then have "?b = (length p - ?e) mod 2 ^ 64" by (simp only: mod_mult_self1)
      then have "?b \<le> length p - ?e" by simp
      with F show False by linarith
    qed
    then have b: "?b = length p + 2 ^ 64 - ?e" using e by simp
    then have "?b + 15 = (length p + 15 - ?e) + 1 * 2 ^ 64" using e by simp
    then have "(?b + 15) mod 2 ^ 64 = (length p + 15 - ?e) mod 2 ^ 64"
      by (simp only: mod_mult_self1)
    then have "(?b + 15) mod 2 ^ 64 \<le> length p + 15 - ?e" by simp
    moreover have "length p + 15 - ?e < ?b + 1" using b \<open>length p < ?e\<close> by simp
    ultimately show ?thesis by linarith
  qed
  then show ?thesis using False by (auto simp: build_output_path_def Let_def)
qed

lemma main_run:
  assumes "getopt_loop args initial_settings = Inr s"
    and "r1i_path s = Some p1" and "r2i_path s = Some p2"
    and "r1o_path s = Some q1" and "r2o_path s = Some q2"
    and "threshold (config s) \<noteq> - 1"
  shows "main fs args =
     then_ub (filter_fastqs (config s) (readable fs p1) (readable fs p2)
                (fopen fs q1) (fopen fs q2))
       (\<lambda>res.
     then_ub (case stats_file s of
                None \<Rightarrow> Inr []
              | Some path \<Rightarrow> output_stats fs s p1 q1 p2 q2 res path)
       (\<lambda>written. Inr (ret_val res)))"
  using assms by (simp add: main_def then_ub_def gzopen_def)

text \<open>
  C6, as the code has it. \<^verbatim>\<open>main\<close> exits with 1 when an input path or the threshold
  is missing. Otherwise, with both output paths given, other files than the inputs, and
  inputs that the reader reads line by line: whenever it returns, the exit status is 0 if both input streams deliver
  the same number of records, however many pairs were discarded, and 1 otherwise, where
  an input that failed to open delivers no record, as an empty file does. No result of
  \<^verbatim>\<open>gzopen\<close> or \<^verbatim>\<open>fopen\<close> is tested: with the length predicate and no trimming
  \<^verbatim>\<open>main\<close> returns when the outputs and the statistics file (if asked for) can be
  opened, and it has no defined result when an output or the statistics file cannot.
\<close>

theorem main_exit_status_contract:
  assumes "getopt_loop args initial_settings = Inr s"
  shows "(r1i_path s = None \<or> r2i_path s = None \<or> threshold (config s) = - 1 \<longrightarrow>
            main fs args = Inr 1) \<and>
         (r1i_path s = Some p1 \<and> r2i_path s = Some p2 \<and>
          r1o_path s = Some q1 \<and> r2o_path s = Some q2 \<and> threshold (config s) \<noteq> - 1 \<and>
          q1 \<noteq> p1 \<and> q1 \<noteq> p2 \<and> q2 \<noteq> p1 \<and> q2 \<noteq> p2 \<and>
          whole_lines_stream (config s) (readable fs p1) \<and>
          whole_lines_stream (config s) (readable fs p2) \<longrightarrow>
            (\<forall>status. main fs args = Inr status \<longrightarrow>
               status = (if delivered (readable fs p1) = delivered (readable fs p2)
                         then 0 else 1)) \<and>
            (threshold_only (config s) \<and> writable fs q1 \<and> writable fs q2 \<and>
             (\<forall>path. stats_file s = Some path \<longrightarrow> writable fs path) \<longrightarrow>
               (\<exists>status. main fs args = Inr status)) \<and>
            (\<not> writable fs q1 \<or> \<not> writable fs q2 \<or>
             (\<exists>path. stats_file s = Some path \<and> \<not> writable fs path) \<longrightarrow>
               (\<exists>e. main fs args = Inl e)))"
proof (intro conjI impI allI)
  assume "r1i_path s = None \<or> r2i_path s = None \<or> threshold (config s) = - 1"
  then show "main fs args = Inr 1"
    using assms by (auto simp: main_def split: option.splits)
next
  fix status
  assume h: "r1i_path s = Some p1 \<and> r2i_path s = Some p2 \<and>
          r1o_path s = Some q1 \<and> r2o_path s = Some q2 \<and> threshold (config s) \<noteq> - 1 \<and>
          q1 \<noteq> p1 \<and> q1 \<noteq> p2 \<and> q2 \<noteq> p1 \<and> q2 \<noteq> p2 \<and>
          whole_lines_stream (config s) (readable fs p1) \<and>
          whole_lines_stream (config s) (readable fs p2)"
    and m: "main fs args = Inr status"
  from h have r: "main fs args =
     then_ub (filter_fastqs (config s) (readable fs p1) (readable fs p2)
                (fopen fs q1) (fopen fs q2))
       (\<lambda>res.
     then_ub (case stats_file s of
                None \<Rightarrow> Inr []
              | Some path \<Rightarrow> output_stats fs s p1 q1 p2 q2 res path)
       (\<lambda>written. Inr (ret_val res)))"
    using main_run [OF assms] by blast
  from m obtain res
    where f: "filter_fastqs (config s) (readable fs p1) (readable fs p2)
                (fopen fs q1) (fopen fs q2) = Inr res"
      and st: "status = ret_val res"
    unfolding r by (auto simp: then_ub_def split: sum.splits)
  from filter_loop_result [OF f [unfolded filter_fastqs_def]]
  have "ret_val res = (if n_records (config s) (readable fs p1) =
                          n_records (config s) (readable fs p2) then 0 else 1)"
    by (simp add: initial_state_def)
  then show "status = (if delivered (readable fs p1) = delivered (readable fs p2)
                         then 0 else 1)"
    using h st by (simp add: n_records_delivered)
next
  assume h: "r1i_path s = Some p1 \<and> r2i_path s = Some p2 \<and>
          r1o_path s = Some q1 \<and> r2o_path s = Some q2 \<and> threshold (config s) \<noteq> - 1 \<and>
          q1 \<noteq> p1 \<and> q1 \<noteq> p2 \<and> q2 \<noteq> p1 \<and> q2 \<noteq> p2 \<and>
          whole_lines_stream (config s) (readable fs p1) \<and>
          whole_lines_stream (config s) (readable fs p2)"
    and w: "threshold_only (config s) \<and> writable fs q1 \<and> writable fs q2 \<and>
             (\<forall>path. stats_file s = Some path \<longrightarrow> writable fs path)"
  from h have r: "main fs args =
     then_ub (filter_fastqs (config s) (readable fs p1) (readable fs p2)
                (fopen fs q1) (fopen fs q2))
       (\<lambda>res.
     then_ub (case stats_file s of
                None \<Rightarrow> Inr []
              | Some path \<Rightarrow> output_stats fs s p1 q1 p2 q2 res path)
       (\<lambda>written. Inr (ret_val res)))"
    using main_run [OF assms] by blast
  obtain res where f: "filter_fastqs (config s) (readable fs p1) (readable fs p2)
                (fopen fs q1) (fopen fs q2) = Inr res"
    using w filter_loop_returns [of "config s"
        "initial_state (readable fs p1) (readable fs p2) (Some []) (Some [])"]
    by (auto simp: filter_fastqs_def initial_state_def fopen_def)
  show "\<exists>status. main fs args = Inr status"
    unfolding r using f w
    by (cases "stats_file s") (simp_all add: then_ub_def output_stats_def fopen_def)
next
  assume h: "r1i_path s = Some p1 \<and> r2i_path s = Some p2 \<and>
          r1o_path s = Some q1 \<and> r2o_path s = Some q2 \<and> threshold (config s) \<noteq> - 1 \<and>
          q1 \<noteq> p1 \<and> q1 \<noteq> p2 \<and> q2 \<noteq> p1 \<and> q2 \<noteq> p2 \<and>
          whole_lines_stream (config s) (readable fs p1) \<and>
          whole_lines_stream (config s) (readable fs p2)"
    and w: "\<not> writable fs q1 \<or> \<not> writable fs q2 \<or>
             (\<exists>path. stats_file s = Some path \<and> \<not> writable fs path)"
  from h have r: "main fs args =
     then_ub (filter_fastqs (config s) (readable fs p1) (readable fs p2)
                (fopen fs q1) (fopen fs q2))
       (\<lambda>res.
     then_ub (case stats_file s of
                None \<Rightarrow> Inr []
              | Some path \<Rightarrow> output_stats fs s p1 q1 p2 q2 res path)
       (\<lambda>written. Inr (ret_val res)))"
    using main_run [OF assms] by blast
  show "\<exists>e. main fs args = Inl e"
  proof (cases "\<not> writable fs q1 \<or> \<not> writable fs q2")
    case True
    then obtain e where "filter_fastqs (config s) (readable fs p1) (readable fs p2)
                (fopen fs q1) (fopen fs q2) = Inl e"
      using filter_loop_null_output [of "initial_state (readable fs p1) (readable fs p2)
          (fopen fs q1) (fopen fs q2)" "config s"]
      by (auto simp: filter_fastqs_def initial_state_def fopen_def)
    then show ?thesis unfolding r by (simp add: then_ub_def)
  next
    case False
    with w obtain path where p: "stats_file s = Some path" "\<not> writable fs path" by blast
    show ?thesis unfolding r using p
      by (cases "filter_fastqs (config s) (readable fs p1) (readable fs p2)
                (fopen fs q1) (fopen fs q2)")
        (simp_all add: then_ub_def output_stats_def fopen_def)
  qed
qed

lemma command_line_settings:
  "getopt_loop (command_line i1 i2) initial_settings =
     Inr \<lparr>config = default_globals 5, r1i_path = Some i1, r2i_path = Some i2,
          r1o_path = Some ''o1.fastq'', r2o_path = Some ''o2.fastq'',
          stats_file = None, remove_tiles = None\<rparr>"
  by (simp add: command_line_def initial_settings_def default_globals_def)

theorem main_exit_status_contract_witness:
  "main two_files (command_line ''r1.fastq'' ''r1.fastq'') = Inr 0 \<and>
   main two_files (command_line ''r1.fastq'' ''r2.fastq'') = Inr 1 \<and>
   main two_files [Opt_i1 ''r1.fastq'', Opt_i2 ''r2.fastq''] = Inr 1"
proof -
  have p: "threshold_only (default_globals 5)"
    by (simp add: threshold_only_def default_globals_def)
  have t: "threshold (default_globals 5) \<noteq> - 1" by (simp add: default_globals_def)
  have r: "readable two_files ''r1.fastq'' = Some three_reads"
    "readable two_files ''r2.fastq'' = Some two_reads"
    "writable two_files ''o1.fastq''" "writable two_files ''o2.fastq''"
    by (simp_all add: two_files_def)
  have w: "whole_lines_stream (default_globals 5) (Some three_reads)"
    "whole_lines_stream (default_globals 5) (Some two_reads)"
    by (simp_all add: whole_lines_stream_def whole_lines_three_reads whole_lines_two_reads)
  have d: "delivered (Some three_reads) = 3" "delivered (Some two_reads) = 2"
    by (simp_all add: delivered_def record_count_three_reads record_count_two_reads)
  have a: "main two_files (command_line ''r1.fastq'' ''r1.fastq'') = Inr 0"
    using main_exit_status_contract [OF command_line_settings [of "''r1.fastq''" "''r1.fastq''"],
        where ?p1.0 = "''r1.fastq''" and ?p2.0 = "''r1.fastq''" and ?q1.0 = "''o1.fastq''"
          and ?q2.0 = "''o2.fastq''" and ?fs = two_files] p t r w d
    by auto
  have b: "main two_files (command_line ''r1.fastq'' ''r2.fastq'') = Inr 1"
    using main_exit_status_contract [OF command_line_settings [of "''r1.fastq''" "''r2.fastq''"],
        where ?p1.0 = "''r1.fastq''" and ?p2.0 = "''r2.fastq''" and ?q1.0 = "''o1.fastq''"
          and ?q2.0 = "''o2.fastq''" and ?fs = two_files] p t r w d
    by auto
  have g: "getopt_loop [Opt_i1 ''r1.fastq'', Opt_i2 ''r2.fastq''] initial_settings =
     Inr \<lparr>config = config initial_settings, r1i_path = Some ''r1.fastq'',
          r2i_path = Some ''r2.fastq'', r1o_path = None, r2o_path = None,
          stats_file = None, remove_tiles = None\<rparr>"
    by (simp add: initial_settings_def)
  have c: "main two_files [Opt_i1 ''r1.fastq'', Opt_i2 ''r2.fastq''] = Inr 1"
    using main_exit_status_contract [OF g, where ?fs = two_files]
    by (simp add: initial_settings_def)
  from a b c show ?thesis by blast
qed

text \<open>
  The claim as stated fails: when neither input file can be opened, the run ends at
  once as a success and the exit status is 0.
\<close>

theorem main_exit_status_unopened_inputs:
  "readable no_files ''r1.fastq'' = None \<and> readable no_files ''r2.fastq'' = None \<and>
   main no_files (command_line ''r1.fastq'' ''r2.fastq'') = Inr 0"
  by (simp add: main_def command_line_def initial_settings_def no_files_def gzopen_def
      fopen_def run_simps)

lemma after_iterations_Suc:
  "after_iterations g (Suc n) st = Some st'' \<Longrightarrow>
     \<exists>st'. filter_iteration g st = Inr (Running st') \<and> after_iterations g n st' = Some st''"
  by (auto split: sum.splits step.splits)

lemma after_iterations_counters:
  "after_iterations g n st = Some st' \<Longrightarrow>
     read_pairs_checked st' = count_up n (read_pairs_checked st) \<and>
     (\<exists>a b. a + b = n \<and>
        read_pairs_removed st' = count_up a (read_pairs_removed st) \<and>
        read_pairs_remaining st' = count_up b (read_pairs_remaining st))"
proof (induction n arbitrary: st)
  case 0
  then have "st' = st" by simp
  then have "0 + 0 = (0::nat) \<and>
        read_pairs_removed st' = count_up 0 (read_pairs_removed st) \<and>
        read_pairs_remaining st' = count_up 0 (read_pairs_remaining st)"
    by (simp add: count_up_0)
  then show ?case using \<open>st' = st\<close> by (auto simp: count_up_0)
next
  case (Suc n)
  from after_iterations_Suc [OF Suc.prems] obtain mid
    where it: "filter_iteration g st = Inr (Running mid)"
      and rest: "after_iterations g n mid = Some st'" by blast
  from Suc.IH [OF rest] obtain a b
    where c: "read_pairs_checked st' = count_up n (read_pairs_checked mid)"
      and ab: "a + b = n" "read_pairs_removed st' = count_up a (read_pairs_removed mid)"
        "read_pairs_remaining st' = count_up b (read_pairs_remaining mid)" by blast
  note m = filter_iteration_Running_counters [OF it]
  have c': "read_pairs_checked st' = count_up (Suc n) (read_pairs_checked st)"
    using c m by (simp add: count_up_Suc)
  from m have "(read_pairs_removed mid = c_int (read_pairs_removed st + 1) \<and>
           read_pairs_remaining mid = read_pairs_remaining st) \<or>
          (read_pairs_removed mid = read_pairs_removed st \<and>
           read_pairs_remaining mid = c_int (read_pairs_remaining st + 1))" by blast
  then show ?case
  proof
    assume "read_pairs_removed mid = c_int (read_pairs_removed st + 1) \<and>
           read_pairs_remaining mid = read_pairs_remaining st"
    then have "Suc a + b = Suc n \<and>
        read_pairs_removed st' = count_up (Suc a) (read_pairs_removed st) \<and>
        read_pairs_remaining st' = count_up b (read_pairs_remaining st)"
      using ab by (simp add: count_up_Suc)
    with c' show ?thesis by blast
  next
    assume "read_pairs_removed mid = read_pairs_removed st \<and>
           read_pairs_remaining mid = c_int (read_pairs_remaining st + 1)"
    then have "a + Suc b = Suc n \<and>
        read_pairs_removed st' = count_up a (read_pairs_removed st) \<and>
        read_pairs_remaining st' = count_up (Suc b) (read_pairs_remaining st)"
      using ab by (simp add: count_up_Suc)
    with c' show ?thesis by blast
  qed
qed

lemma after_iterations_initial:
  assumes "after_iterations g n (initial_state i1 i2 o1 o2) = Some st"
  shows "read_pairs_checked st = c_int (int n) \<and>
         (\<exists>a b. a + b = n \<and> read_pairs_removed st = c_int (int a) \<and>
            read_pairs_remaining st = c_int (int b)) \<and>
         read_pairs_checked st = c_int (read_pairs_removed st + read_pairs_remaining st)"
proof -
  from after_iterations_counters [OF assms] obtain a b
    where c: "read_pairs_checked st = c_int (int n)"
      and ab: "a + b = n" "read_pairs_removed st = c_int (int a)"
        "read_pairs_remaining st = c_int (int b)"
    by (auto simp: initial_state_def count_up_zero)
  have "c_int (c_int (int a) + c_int (int b)) = c_int (int a + int b)"
    by (simp add: c_int_add_left c_int_add_right)
  moreover have "int n = int a + int b" using ab(1) by linarith
  ultimately
  have "read_pairs_checked st = c_int (read_pairs_removed st + read_pairs_remaining st)"
    using c ab(2,3) by simp
  with c ab show ?thesis by blast
qed

lemma after_iterations_exact:
  assumes "after_iterations g n (initial_state i1 i2 o1 o2) = Some st" and "n < 2 ^ 31"
  shows "read_pairs_checked st = int n \<and>
         read_pairs_checked st = read_pairs_removed st + read_pairs_remaining st \<and>
         (\<exists>a b. a + b = n \<and> read_pairs_removed st = int a \<and> read_pairs_remaining st = int b)"
proof -
  from after_iterations_initial [OF assms(1)] obtain a b
    where c: "read_pairs_checked st = c_int (int n)"
      and ab: "a + b = n" "read_pairs_removed st = c_int (int a)"
        "read_pairs_remaining st = c_int (int b)" by blast
  have n: "int n < 2 ^ 31" using assms(2) by (simp only: of_nat_less_numeral_power_cancel_iff)
  then have "int a < 2 ^ 31" "int b < 2 ^ 31" using ab(1) by simp_all
  then have "c_int (int n) = int n" "c_int (int a) = int a" "c_int (int b) = int b"
    using n by (simp_all add: c_int_id)
  with c ab show ?thesis by auto
qed

lemma after_iterations_add:
  "after_iterations g (n + k) st = Some st'' \<Longrightarrow>
     \<exists>st'. after_iterations g n st = Some st' \<and> after_iterations g k st' = Some st''"
proof (induction n arbitrary: st)
  case 0
  then show ?case by simp
next
  case (Suc n)
  from Suc.prems have "after_iterations g (Suc (n + k)) st = Some st''" by simp
  from after_iterations_Suc [OF this] obtain mid
    where it: "filter_iteration g st = Inr (Running mid)"
      and rest: "after_iterations g (n + k) mid = Some st''" by blast
  from Suc.IH [OF rest] it show ?case by auto
qed

lemma filter_loop_iterations:
  "filter_loop g st = Inr res \<Longrightarrow>
     \<exists>n st'. after_iterations g n st = Some st' \<and> filter_iteration g st' = Inr (Returned res)"
proof (induction g st rule: filter_loop.induct)
  case (1 g st)
  show ?case
  proof (cases "filter_iteration g st")
    case (Inl e)
    with "1.prems" show ?thesis by (simp add: filter_loop.simps [of g st])
  next
    case (Inr x)
    show ?thesis
    proof (cases x)
      case (Returned r)
      then have "filter_iteration g st = Inr (Returned res)"
        using Inr "1.prems" by (simp add: filter_loop.simps [of g st])
      then have "after_iterations g 0 st = Some st \<and> filter_iteration g st = Inr (Returned res)"
        by simp
      then show ?thesis by blast
    next
      case (Running mid)
      then have "filter_loop g mid = Inr res"
        using Inr "1.prems" by (simp add: filter_loop.simps [of g st])
      from "1.IH" [OF Inr Running this] obtain n st'
        where "after_iterations g n mid = Some st'"
          and "filter_iteration g st' = Inr (Returned res)" by blast
      then have "after_iterations g (Suc n) st = Some st' \<and>
          filter_iteration g st' = Inr (Returned res)"
        using Inr Running by simp
      then show ?thesis by blast
    qed
  qed
qed

lemma after_iterations_exists:
  "threshold_only g \<Longrightarrow> r1o st \<noteq> None \<Longrightarrow> r2o st \<noteq> None \<Longrightarrow>
   n \<le> n_records g (r1i st) \<Longrightarrow> n \<le> n_records g (r2i st) \<Longrightarrow>
     \<exists>st'. after_iterations g n st = Some st'"
proof (induction n arbitrary: st)
  case 0
  show ?case by simp
next
  case (Suc n)
  obtain w1 w2 where w: "r1o st = Some w1" "r2o st = Some w2" using Suc.prems(2,3) by auto
  have ne: "chars (header (fst (read_fastq g (r1i st)))) \<noteq> []"
           "chars (header (fst (read_fastq g (r2i st)))) \<noteq> []"
    using Suc.prems(4,5) n_records_zero [of g "r1i st"] n_records_zero [of g "r2i st"]
    by auto
  from filter_iteration_plain_pair [OF Suc.prems(1) ne w] obtain st'
    where it: "filter_iteration g st = Inr (Running st')"
      and o: "r1o st' \<noteq> None" "r2o st' \<noteq> None"
    by (cases "std_check_read g (fst (read_fastq g (r1i st))) (fst (read_fastq g (r2i st)))")
       (simp_all add: w)
  have "n \<le> n_records g (r1i st')" "n \<le> n_records g (r2i st')"
    using filter_iteration_Running_records [OF it] Suc.prems(4,5) by simp_all
  from Suc.IH [OF Suc.prems(1) o this] obtain st''
    where "after_iterations g n st' = Some st''" by blast
  then show ?case using it by simp
qed

text \<open>
  C3, as the code has it. The three counters start at 0, and after every round of the
  loop \<open>checked\<close> is the sum of \<open>removed\<close> and \<open>remaining\<close> in the arithmetic of
  \<^verbatim>\<open>int\<close>. For fewer than \<open>2^31\<close> rounds the sum is exact, \<open>checked\<close> is the number of
  rounds made and no counter is smaller after a later round than after an earlier one.
  The counters that the run returns are those after its last round, so the same holds
  at completion.
\<close>

theorem counters_invariant:
  "read_pairs_checked (initial_state i1 i2 o1 o2) = 0 \<and>
   read_pairs_removed (initial_state i1 i2 o1 o2) = 0 \<and>
   read_pairs_remaining (initial_state i1 i2 o1 o2) = 0 \<and>
   (\<forall>n st. after_iterations g n (initial_state i1 i2 o1 o2) = Some st \<longrightarrow>
      read_pairs_checked st = c_int (read_pairs_removed st + read_pairs_remaining st) \<and>
      (n < 2 ^ 31 \<longrightarrow>
         read_pairs_checked st = read_pairs_removed st + read_pairs_remaining st \<and>
         read_pairs_checked st = int n)) \<and>
   (\<forall>n k st st'. after_iterations g n (initial_state i1 i2 o1 o2) = Some st \<and>
        after_iterations g (n + k) (initial_state i1 i2 o1 o2) = Some st' \<and>
        n + k < 2 ^ 31 \<longrightarrow>
      read_pairs_checked st \<le> read_pairs_checked st' \<and>
      read_pairs_removed st \<le> read_pairs_removed st' \<and>
      read_pairs_remaining st \<le> read_pairs_remaining st') \<and>
   (\<forall>res. filter_fastqs g i1 i2 o1 o2 = Inr res \<longrightarrow>
      checked res = c_int (removed res + remaining res) \<and>
      (\<exists>n st. after_iterations g n (initial_state i1 i2 o1 o2) = Some st \<and>
         checked res = read_pairs_checked st \<and> removed res = read_pairs_removed st \<and>
         remaining res = read_pairs_remaining st \<and>
         (n < 2 ^ 31 \<longrightarrow> checked res = removed res + remaining res \<and> checked res = int n)))"
proof (intro conjI allI impI)
  show "read_pairs_checked (initial_state i1 i2 o1 o2) = 0"
    and "read_pairs_removed (initial_state i1 i2 o1 o2) = 0"
    and "read_pairs_remaining (initial_state i1 i2 o1 o2) = 0"
    by (simp_all add: initial_state_def)
next
  fix n st
  assume "after_iterations g n (initial_state i1 i2 o1 o2) = Some st"
  from after_iterations_initial [OF this]
  show "read_pairs_checked st = c_int (read_pairs_removed st + read_pairs_remaining st)"
    by blast
next
  fix n st
  assume "after_iterations g n (initial_state i1 i2 o1 o2) = Some st" and "n < 2 ^ 31"
  from after_iterations_exact [OF this]
  show "read_pairs_checked st = read_pairs_removed st + read_pairs_remaining st"
    and "read_pairs_checked st = int n"
    by simp_all
next
  fix n k st st'
  assume a: "after_iterations g n (initial_state i1 i2 o1 o2) = Some st \<and>
        after_iterations g (n + k) (initial_state i1 i2 o1 o2) = Some st' \<and> n + k < 2 ^ 31"
  then have n: "n < 2 ^ 31" by simp
  from after_iterations_exact [of g n i1 i2 o1 o2 st] a n
  obtain a1 b1 where s1: "a1 + b1 = n" "read_pairs_checked st = int n"
    "read_pairs_removed st = int a1" "read_pairs_remaining st = int b1" by auto
  from after_iterations_exact [of g "n + k" i1 i2 o1 o2 st'] a
  obtain a2 b2 where s2: "a2 + b2 = n + k" "read_pairs_checked st' = int (n + k)"
    "read_pairs_removed st' = int a2" "read_pairs_remaining st' = int b2" by auto
  from a obtain mid where "after_iterations g n (initial_state i1 i2 o1 o2) = Some mid"
      and "after_iterations g k mid = Some st'"
    using after_iterations_add by blast
  with a have "after_iterations g k st = Some st'" by simp
  from after_iterations_counters [OF this] obtain a3 b3
    where s3: "a3 + b3 = k" "read_pairs_removed st' = count_up a3 (read_pairs_removed st)"
      "read_pairs_remaining st' = count_up b3 (read_pairs_remaining st)" by blast
  have "int a1 + int a3 < 2 ^ 31" "int b1 + int b3 < 2 ^ 31"
    using s1(1) s3(1) a by simp_all
  then have "read_pairs_removed st' = int a1 + int a3" "read_pairs_remaining st' = int b1 + int b3"
    using s3(2,3) s1(3,4) by (simp_all add: count_up_exact)
  then show "read_pairs_checked st \<le> read_pairs_checked st'"
    and "read_pairs_removed st \<le> read_pairs_removed st'"
    and "read_pairs_remaining st \<le> read_pairs_remaining st'"
    using s1 s2 by simp_all
next
  fix res
  assume "filter_fastqs g i1 i2 o1 o2 = Inr res"
  then have l: "filter_loop g (initial_state i1 i2 o1 o2) = Inr res"
    by (simp add: filter_fastqs_def)
  from filter_loop_iterations [OF l] obtain n st
    where n: "after_iterations g n (initial_state i1 i2 o1 o2) = Some st"
      and r: "filter_iteration g st = Inr (Returned res)" by blast
  have c: "checked res = read_pairs_checked st \<and> removed res = read_pairs_removed st \<and>
         remaining res = read_pairs_remaining st"
    using filter_iteration_Returned [OF r] by simp
  from after_iterations_initial [OF n] c
  show "checked res = c_int (removed res + remaining res)" by simp
  have "n < 2 ^ 31 \<longrightarrow> checked res = removed res + remaining res \<and> checked res = int n"
    using after_iterations_exact [OF n] c by auto
  with n c show "\<exists>n st. after_iterations g n (initial_state i1 i2 o1 o2) = Some st \<and>
         checked res = read_pairs_checked st \<and> removed res = read_pairs_removed st \<and>
         remaining res = read_pairs_remaining st \<and>
         (n < 2 ^ 31 \<longrightarrow> checked res = removed res + remaining res \<and> checked res = int n)"
    by blast
qed

lemma after_two_iterations:
  "map_option (\<lambda>st. (read_pairs_checked st, read_pairs_removed st, read_pairs_remaining st))
     (after_iterations (default_globals 5) 2
        (initial_state (Some three_reads) (Some two_reads) (Some []) (Some []))) =
   Some (2, 1, 1)"
  by (simp add: numeral_2_eq_2 run_simps c_int_def three_reads_def two_reads_def)

theorem counters_invariant_witness:
  "\<exists>st. after_iterations (default_globals 5) 2
        (initial_state (Some three_reads) (Some two_reads) (Some []) (Some [])) = Some st \<and>
      read_pairs_checked st = 2 \<and> read_pairs_removed st = 1 \<and> read_pairs_remaining st = 1 \<and>
      read_pairs_checked st = read_pairs_removed st + read_pairs_remaining st"
proof -
  from after_two_iterations obtain st
    where s: "after_iterations (default_globals 5) 2
        (initial_state (Some three_reads) (Some two_reads) (Some []) (Some [])) = Some st"
      and c: "read_pairs_checked st = 2" "read_pairs_removed st = 1" "read_pairs_remaining st = 1"
    by auto
  from counters_invariant [of "Some three_reads" "Some two_reads" "Some []" "Some []"
      "default_globals 5"] s
  have "read_pairs_checked st = read_pairs_removed st + read_pairs_remaining st" by force
  with s c show ?thesis by blast
qed

lemma after_iterations_blank:
  "map_option read_pairs_checked
     (after_iterations (default_globals 5) n
        (initial_state (Some (blank_records n)) (Some (blank_records n)) (Some []) (Some []))) =
   Some (c_int (int n))"
proof -
  let ?g = "default_globals 5"
  let ?st = "initial_state (Some (blank_records n)) (Some (blank_records n)) (Some []) (Some [])"
  have p: "threshold_only ?g" by (simp add: threshold_only_def default_globals_def)
  have "n_records ?g (r1i ?st) = n" "n_records ?g (r2i ?st) = n"
    by (simp_all add: initial_state_def n_records_whole [OF whole_lines_blank] record_count_blank)
  then obtain st' where s: "after_iterations ?g n ?st = Some st'"
    using after_iterations_exists [OF p, of ?st n] by (auto simp: initial_state_def)
  from after_iterations_counters [OF s]
  have "read_pairs_checked st' = c_int (int n)"
    by (simp add: initial_state_def count_up_zero)
  with s show ?thesis by simp
qed

text \<open>
  The claim as stated fails on an input of \<open>2^31\<close> pairs: after \<open>2^31 - 1\<close> rounds
  \<open>checked\<close> is \<open>2147483647\<close>, and after one more round it is \<open>-2147483648\<close>.
\<close>

theorem counters_decrease:
  "map_option read_pairs_checked
     (after_iterations (default_globals 5) 2147483647
        (initial_state (Some (blank_records 2147483647)) (Some (blank_records 2147483647))
           (Some []) (Some []))) = Some 2147483647 \<and>
   map_option read_pairs_checked
     (after_iterations (default_globals 5) 2147483648
        (initial_state (Some (blank_records 2147483648)) (Some (blank_records 2147483648))
           (Some []) (Some []))) = Some (- 2147483648)"
  using after_iterations_blank [of 2147483647] after_iterations_blank [of 2147483648]
  by (simp add: c_int_def)

section \<open>Filtering the output again\<close>

lemma next_line_reread:
  "(drop (length (next_line s)) s = [] \<longrightarrow> T = []) \<Longrightarrow> next_line (next_line s @ T) = next_line s"
  by (induction s) (auto simp: next_line_Nil next_line_Cons)

lemma gets_chunk_reread:
  "(drop (length (gets_chunk n s)) s = [] \<longrightarrow> T = []) \<Longrightarrow>
     gets_chunk n (gets_chunk n s @ T) = gets_chunk n s"
  by (induction n s rule: gets_chunk.induct) (auto simp: gets_chunk_Nil)

lemma line_of_reread:
  "(drop (length (line_of g s)) s = [] \<longrightarrow> T = []) \<Longrightarrow> line_of g (line_of g s @ T) = line_of g s"
  by (cases "read_func g") (simp_all add: line_of_def next_line_reread gets_chunk_reread)

lemma lines_of_Nil: "lines_of g n [] = (replicate n [], [])"
  by (induction n) (simp_all add: line_of_Nil)

lemma lines_of_reread:
  "lines_of g n s = (ls, rest) \<Longrightarrow> (rest = [] \<longrightarrow> T = []) \<Longrightarrow>
     lines_of g n (concat ls @ T) = (ls, T)"
proof (induction n arbitrary: s ls)
  case 0
  then show ?case by simp
next
  case (Suc n)
  let ?l = "line_of g s"
  let ?s1 = "drop (length ?l) s"
  obtain ls' where rec: "lines_of g n ?s1 = (ls', rest)" and ls: "ls = ?l # ls'"
    using Suc.prems(1) by (auto split: prod.splits)
  have ih: "lines_of g n (concat ls' @ T) = (ls', T)"
    using Suc.IH [OF rec Suc.prems(2)] .
  have cond: "?s1 = [] \<longrightarrow> concat ls' @ T = []"
  proof
    assume e: "?s1 = []"
    then have "ls' = replicate n [] \<and> rest = []" using rec by (simp add: lines_of_Nil)
    then show "concat ls' @ T = []" using Suc.prems(2) by simp
  qed
  have first: "line_of g (?l @ (concat ls' @ T)) = ?l"
    using line_of_reread [OF cond] .
  have "lines_of g (Suc n) (?l @ (concat ls' @ T)) = (?l # ls', T)"
    by (simp add: first ih)
  then show ?case by (simp add: ls)
qed

lemma read_fastq_lines:
  "lines_of g (Suc (Suc (Suc (Suc 0)))) s =
     (record_lines (fst (read_fastq g (Some s))), rest) \<longleftrightarrow>
   snd (read_fastq g (Some s)) = Some rest"
  by (simp add: read_fastq_def record_lines_def case_prod_beta call_read_func_Some)

lemma flat_record_lines: "flat r = concat (record_lines r)"
  by (simp add: flat_def record_lines_def)

lemma read_fastq_reread:
  assumes "snd (read_fastq g (Some s)) = Some rest" and "rest = [] \<longrightarrow> T = []"
  shows "record_lines (fst (read_fastq g (Some (flat (fst (read_fastq g (Some s))) @ T)))) =
           record_lines (fst (read_fastq g (Some s))) \<and>
         snd (read_fastq g (Some (flat (fst (read_fastq g (Some s))) @ T))) = Some T"
proof -
  let ?R = "fst (read_fastq g (Some s))"
  let ?s' = "flat ?R @ T"
  have "lines_of g (Suc (Suc (Suc (Suc 0)))) s = (record_lines ?R, rest)"
    using assms(1) read_fastq_lines by blast
  from lines_of_reread [OF this assms(2)]
  have l: "lines_of g (Suc (Suc (Suc (Suc 0)))) ?s' = (record_lines ?R, T)"
    by (simp only: flat_record_lines)
  obtain T' where t: "snd (read_fastq g (Some ?s')) = Some T'"
    using read_fastq_open by blast
  then have "lines_of g (Suc (Suc (Suc (Suc 0)))) ?s' =
      (record_lines (fst (read_fastq g (Some ?s'))), T')"
    using read_fastq_lines by blast
  with l t show ?thesis by simp
qed

lemma std_check_read_lines:
  "record_lines r1' = record_lines r1 \<Longrightarrow> record_lines r2' = record_lines r2 \<Longrightarrow>
     std_check_read g r1' r2' = std_check_read g r1 r2"
  by (simp add: std_check_read_def strlen_def record_lines_def)

lemma flat_lines: "record_lines r' = record_lines r \<Longrightarrow> flat r' = flat r"
  by (simp add: flat_record_lines)

lemma rereads_Nil: "rereads g [] [] 0"
  unfolding rereads_def
proof (intro allI impI)
  fix st :: loop_state and v1 v2
  assume a: "r1i st = Some []" "r2i st = Some []" "r1o st = Some v1" "r2o st = Some v2"
  have e: "chars (header (fst (read_fastq g (r1i st)))) = [] \<or>
           chars (header (fst (read_fastq g (r2i st)))) = []"
    using a by (simp add: read_fastq_Nil)
  show "filter_loop g st =
          Inr \<lparr>ret_val = 0,
               checked = count_up 0 (read_pairs_checked st),
               removed = read_pairs_removed st,
               remaining = count_up 0 (read_pairs_remaining st),
               r1_filtered = v1 @ [], r2_filtered = v2 @ [],
               logged = console st,
               closed = [R1i, R2i, R1o, R2o]\<rparr>"
    using a
    by (simp add: filter_loop.simps [of g st] filter_iteration_end [OF e] read_fastq_Nil
        then_ub_def fclose_def count_up_0)
qed

lemma rereads_step:
  assumes plain: "threshold_only g"
    and r1: "snd (read_fastq g (Some s1)) = Some rest1"
    and r2: "snd (read_fastq g (Some s2)) = Some rest2"
    and h1: "chars (header (fst (read_fastq g (Some s1)))) \<noteq> []"
    and h2: "chars (header (fst (read_fastq g (Some s2)))) \<noteq> []"
    and keep: "std_check_read g (fst (read_fastq g (Some s1))) (fst (read_fastq g (Some s2)))"
    and t1: "rest1 = [] \<longrightarrow> e1 = []" and t2: "rest2 = [] \<longrightarrow> e2 = []"
    and rec: "rereads g e1 e2 k"
  shows "rereads g (flat (fst (read_fastq g (Some s1))) @ e1)
           (flat (fst (read_fastq g (Some s2))) @ e2) (Suc k)"
  unfolding rereads_def
proof (intro allI impI)
  let ?R1 = "fst (read_fastq g (Some s1))"
  let ?R2 = "fst (read_fastq g (Some s2))"
  fix st :: loop_state and v1 v2
  assume a: "r1i st = Some (flat ?R1 @ e1)" "r2i st = Some (flat ?R2 @ e2)"
    "r1o st = Some v1" "r2o st = Some v2"
  let ?Q1 = "fst (read_fastq g (r1i st))"
  let ?Q2 = "fst (read_fastq g (r2i st))"
  have q1: "record_lines ?Q1 = record_lines ?R1" "snd (read_fastq g (r1i st)) = Some e1"
    using read_fastq_reread [OF r1 t1] a(1) by simp_all
  have q2: "record_lines ?Q2 = record_lines ?R2" "snd (read_fastq g (r2i st)) = Some e2"
    using read_fastq_reread [OF r2 t2] a(2) by simp_all
  have ne: "chars (header ?Q1) \<noteq> []" "chars (header ?Q2) \<noteq> []"
    using q1(1) q2(1) h1 h2 by (simp_all add: record_lines_def)
  have k: "std_check_read g ?Q1 ?Q2"
    using keep std_check_read_lines [OF q1(1) q2(1)] by simp
  let ?st' = "st\<lparr>r1i := Some e1, r2i := Some e2,
              r1o := Some (v1 @ flat ?R1), r2o := Some (v2 @ flat ?R2),
              read_pairs_checked := c_int (read_pairs_checked st + 1),
              read_pairs_remaining := c_int (read_pairs_remaining st + 1)\<rparr>"
  have it: "filter_iteration g st = Inr (Running ?st')"
    using filter_iteration_plain_pair [OF plain ne a(3,4)] k q1(2) q2(2)
      flat_lines [OF q1(1)] flat_lines [OF q2(1)] by simp
  have "filter_loop g ?st' =
          Inr \<lparr>ret_val = 0,
               checked = count_up k (read_pairs_checked ?st'),
               removed = read_pairs_removed ?st',
               remaining = count_up k (read_pairs_remaining ?st'),
               r1_filtered = (v1 @ flat ?R1) @ e1, r2_filtered = (v2 @ flat ?R2) @ e2,
               logged = console ?st',
               closed = [R1i, R2i, R1o, R2o]\<rparr>"
    using rec [unfolded rereads_def, rule_format, of ?st' "v1 @ flat ?R1" "v2 @ flat ?R2"]
    by simp
  then show "filter_loop g st =
          Inr \<lparr>ret_val = 0,
               checked = count_up (Suc k) (read_pairs_checked st),
               removed = read_pairs_removed st,
               remaining = count_up (Suc k) (read_pairs_remaining st),
               r1_filtered = v1 @ flat ?R1 @ e1, r2_filtered = v2 @ flat ?R2 @ e2,
               logged = console st,
               closed = [R1i, R2i, R1o, R2o]\<rparr>"
    using it by (simp add: filter_loop.simps [of g st] count_up_Suc)
qed

lemma call_check_func_True:
  "call_check_func g r1 r2 = Inr True \<Longrightarrow> std_check_read g r1 r2"
  by (cases "check_func g")
    (auto simp: call_check_func_def tile_check_read_def split: if_splits)

lemma filter_iteration_untrimmed:
  assumes it: "filter_iteration g st = Inr (Running st')"
    and inc: "include_func_r1 g = Std_include" "include_func_r2 g = Std_include"
    and o: "r1o st = Some w1" "r2o st = Some w2"
  shows "(r1o st' = Some w1 \<and> r2o st' = Some w2 \<and>
          read_pairs_remaining st' = read_pairs_remaining st) \<or>
         (std_check_read g (fst (read_fastq g (r1i st))) (fst (read_fastq g (r2i st))) \<and>
          r1o st' = Some (w1 @ flat (fst (read_fastq g (r1i st)))) \<and>
          r2o st' = Some (w2 @ flat (fst (read_fastq g (r2i st)))) \<and>
          read_pairs_remaining st' = c_int (read_pairs_remaining st + 1))"
proof -
  have ne: "chars (header (fst (read_fastq g (r1i st)))) \<noteq> []"
           "chars (header (fst (read_fastq g (r2i st)))) \<noteq> []"
    using filter_iteration_Running [OF it] by simp_all
  obtain keep where c: "call_check_func g (fst (read_fastq g (r1i st)))
      (fst (read_fastq g (r2i st))) = Inr keep"
    using it unfolding filter_iteration_pair [OF ne]
    by (auto simp: then_ub_def split: sum.splits)
  show ?thesis
  proof (cases keep)
    case True
    then have "std_check_read g (fst (read_fastq g (r1i st))) (fst (read_fastq g (r2i st)))"
      using c call_check_func_True by simp
    moreover have "st' = st\<lparr>r1i := snd (read_fastq g (r1i st)), r2i := snd (read_fastq g (r2i st)),
              r1o := Some (w1 @ flat (fst (read_fastq g (r1i st)))),
              r2o := Some (w2 @ flat (fst (read_fastq g (r2i st)))),
              read_pairs_checked := c_int (read_pairs_checked st + 1),
              read_pairs_remaining := c_int (read_pairs_remaining st + 1)\<rparr>"
      using it True c inc o unfolding filter_iteration_pair [OF ne]
      by (simp add: then_ub_def call_include_func_def std_include_Some)
    ultimately show ?thesis by simp
  next
    case False
    then have "st' = st\<lparr>r1i := snd (read_fastq g (r1i st)), r2i := snd (read_fastq g (r2i st)),
              read_pairs_checked := c_int (read_pairs_checked st + 1),
              read_pairs_removed := c_int (read_pairs_removed st + 1)\<rparr>"
      using it c unfolding filter_iteration_pair [OF ne]
      by (simp add: then_ub_def)
    then show ?thesis using o by simp
  qed
qed

lemma refilter_shape:
  "filter_loop g st = Inr res \<Longrightarrow>
   include_func_r1 g = Std_include \<Longrightarrow> include_func_r2 g = Std_include \<Longrightarrow>
   r1o st = Some w1 \<Longrightarrow> r2o st = Some w2 \<Longrightarrow>
     \<exists>e1 e2 k. r1_filtered res = w1 @ e1 \<and> r2_filtered res = w2 @ e2 \<and>
       remaining res = count_up k (read_pairs_remaining st) \<and>
       (chars (header (fst (read_fastq g (r1i st)))) = [] \<or>
        chars (header (fst (read_fastq g (r2i st)))) = [] \<longrightarrow> e1 = [] \<and> e2 = []) \<and>
       rereads (g\<lparr>check_func := Std_check_read\<rparr>) e1 e2 k"
proof (induction g st arbitrary: res w1 w2 rule: filter_loop.induct)
  case (1 g st)
  let ?g2 = "g\<lparr>check_func := Std_check_read\<rparr>"
  let ?R1 = "fst (read_fastq g (r1i st))"
  let ?R2 = "fst (read_fastq g (r2i st))"
  note inc = "1.prems"(2,3)
  note o = "1.prems"(4,5)
  show ?case
  proof (cases "filter_iteration g st")
    case (Inl e)
    with "1.prems"(1) show ?thesis by (simp add: filter_loop.simps [of g st])
  next
    case (Inr x)
    show ?thesis
    proof (cases x)
      case (Returned r)
      then have it: "filter_iteration g st = Inr (Returned res)"
        using Inr "1.prems"(1) by (simp add: filter_loop.simps [of g st])
      have "r1_filtered res = w1 @ [] \<and> r2_filtered res = w2 @ [] \<and>
          remaining res = count_up 0 (read_pairs_remaining st)"
        using filter_iteration_Returned [OF it] o by (simp add: count_up_0)
      then show ?thesis using rereads_Nil [of ?g2] by blast
    next
      case (Running st')
      then have loop: "filter_loop g st' = Inr res"
        using Inr "1.prems"(1) by (simp add: filter_loop.simps [of g st])
      have it: "filter_iteration g st = Inr (Running st')" using Inr Running by simp
      have ne: "chars (header ?R1) \<noteq> []" "chars (header ?R2) \<noteq> []"
        and i': "r1i st' = snd (read_fastq g (r1i st))" "r2i st' = snd (read_fastq g (r2i st))"
        using filter_iteration_Running [OF it] by simp_all
      from filter_iteration_untrimmed [OF it inc o]
      show ?thesis
      proof
        assume a: "r1o st' = Some w1 \<and> r2o st' = Some w2 \<and>
          read_pairs_remaining st' = read_pairs_remaining st"
        from "1.IH" [OF Inr Running loop inc] a
        obtain e1 e2 k where "r1_filtered res = w1 @ e1 \<and> r2_filtered res = w2 @ e2 \<and>
            remaining res = count_up k (read_pairs_remaining st') \<and>
            rereads ?g2 e1 e2 k" by blast
        then show ?thesis using a ne by auto
      next
        assume a: "std_check_read g ?R1 ?R2 \<and>
          r1o st' = Some (w1 @ flat ?R1) \<and> r2o st' = Some (w2 @ flat ?R2) \<and>
          read_pairs_remaining st' = c_int (read_pairs_remaining st + 1)"
        from "1.IH" [OF Inr Running loop inc] a
        obtain e1 e2 k where e: "r1_filtered res = (w1 @ flat ?R1) @ e1"
            "r2_filtered res = (w2 @ flat ?R2) @ e2"
            "remaining res = count_up k (read_pairs_remaining st')"
            "chars (header (fst (read_fastq g (r1i st')))) = [] \<or>
             chars (header (fst (read_fastq g (r2i st')))) = [] \<longrightarrow> e1 = [] \<and> e2 = []"
            "rereads ?g2 e1 e2 k" by blast
        obtain s1 where s1: "r1i st = Some s1"
          using ne(1) read_fastq_None [of g] by (cases "r1i st") auto
        obtain s2 where s2: "r2i st = Some s2"
          using ne(2) read_fastq_None [of g] by (cases "r2i st") auto
        obtain rest1 where rest1: "snd (read_fastq g (Some s1)) = Some rest1"
          using read_fastq_open by blast
        obtain rest2 where rest2: "snd (read_fastq g (Some s2)) = Some rest2"
          using read_fastq_open by blast
        have t1: "rest1 = [] \<longrightarrow> e1 = []"
          using e(4) i'(1) s1 rest1 read_fastq_Nil [of g] by auto
        have t2: "rest2 = [] \<longrightarrow> e2 = []"
          using e(4) i'(2) s2 rest2 read_fastq_Nil [of g] by auto
        have plain: "threshold_only ?g2" using inc by (simp add: threshold_only_def)
        have "rereads ?g2 (flat (fst (read_fastq ?g2 (Some s1))) @ e1)
           (flat (fst (read_fastq ?g2 (Some s2))) @ e2) (Suc k)"
          using rereads_step [OF plain, of s1 rest1 s2 rest2 e1 e2 k]
            rest1 rest2 ne a t1 t2 e(5) s1 s2 by simp
        then have "rereads ?g2 (flat ?R1 @ e1) (flat ?R2 @ e2) (Suc k)"
          using s1 s2 by simp
        moreover have "r1_filtered res = w1 @ (flat ?R1 @ e1)"
          "r2_filtered res = w2 @ (flat ?R2 @ e2)"
          "remaining res = count_up (Suc k) (read_pairs_remaining st)"
          using e(1,2,3) a by (simp_all add: count_up_Suc)
        ultimately show ?thesis using ne by blast
      qed
    qed
  qed
qed

text \<open>
  C9. Take a run without trimming that returns. A second run on its two output files,
  with the same threshold and reader, the length predicate and no trimming, keeps every
  pair: it removes none, \<open>checked\<close> and \<open>remaining\<close> are the number of pairs the first run
  kept, it writes the same two files again, and it returns 0. With the length predicate
  the first run returns.
\<close>

theorem refilter_keeps_all:
  assumes "include_func_r1 g = Std_include" and "include_func_r2 g = Std_include"
  shows "(\<forall>res. filter_fastqs g i1 i2 (Some []) (Some []) = Inr res \<longrightarrow>
            filter_fastqs (g\<lparr>check_func := Std_check_read\<rparr>)
              (Some (r1_filtered res)) (Some (r2_filtered res)) (Some []) (Some []) =
            Inr \<lparr>ret_val = 0, checked = remaining res, removed = 0,
                 remaining = remaining res,
                 r1_filtered = r1_filtered res, r2_filtered = r2_filtered res,
                 logged = [], closed = [R1i, R2i, R1o, R2o]\<rparr>) \<and>
         (check_func g = Std_check_read \<longrightarrow>
            (\<exists>res. filter_fastqs g i1 i2 (Some []) (Some []) = Inr res))"
proof (intro conjI allI impI)
  fix res
  assume "filter_fastqs g i1 i2 (Some []) (Some []) = Inr res"
  then have l: "filter_loop g (initial_state i1 i2 (Some []) (Some [])) = Inr res"
    by (simp add: filter_fastqs_def)
  from refilter_shape [OF l assms, of "[]" "[]"]
  obtain e1 e2 k where e: "r1_filtered res = e1" "r2_filtered res = e2"
      "remaining res = count_up k 0" "rereads (g\<lparr>check_func := Std_check_read\<rparr>) e1 e2 k"
    by (auto simp: initial_state_def)
  from e(4) [unfolded rereads_def, rule_format,
      of "initial_state (Some e1) (Some e2) (Some []) (Some [])" "[]" "[]"]
  show "filter_fastqs (g\<lparr>check_func := Std_check_read\<rparr>)
              (Some (r1_filtered res)) (Some (r2_filtered res)) (Some []) (Some []) =
            Inr \<lparr>ret_val = 0, checked = remaining res, removed = 0,
                 remaining = remaining res,
                 r1_filtered = r1_filtered res, r2_filtered = r2_filtered res,
                 logged = [], closed = [R1i, R2i, R1o, R2o]\<rparr>"
    using e(1,2,3) by (simp add: filter_fastqs_def initial_state_def)
next
  assume "check_func g = Std_check_read"
  then have "threshold_only g" using assms by (simp add: threshold_only_def)
  then show "\<exists>res. filter_fastqs g i1 i2 (Some []) (Some []) = Inr res"
    using filter_loop_returns [of g "initial_state i1 i2 (Some []) (Some [])"]
    by (simp add: filter_fastqs_def initial_state_def)
qed

lemma three_reads_filtered:
  "filter_fastqs (default_globals 5) (Some three_reads) (Some three_reads) (Some []) (Some []) =
     Inr \<lparr>ret_val = 0, checked = 3, removed = 1, remaining = 2,
          r1_filtered = record_text ''@a'' ''ACGTACGT'' ''########'' @
                        record_text ''@c'' ''TTGCATGA'' ''########'',
          r2_filtered = record_text ''@a'' ''ACGTACGT'' ''########'' @
                        record_text ''@c'' ''TTGCATGA'' ''########'',
          logged = [], closed = [R1i, R2i, R1o, R2o]\<rparr>"
  by (simp add: run_simps three_reads_def)

theorem refilter_keeps_all_witness:
  "filter_fastqs (default_globals 5)
     (Some (record_text ''@a'' ''ACGTACGT'' ''########'' @
            record_text ''@c'' ''TTGCATGA'' ''########''))
     (Some (record_text ''@a'' ''ACGTACGT'' ''########'' @
            record_text ''@c'' ''TTGCATGA'' ''########''))
     (Some []) (Some []) =
   Inr \<lparr>ret_val = 0, checked = 2, removed = 0, remaining = 2,
        r1_filtered = record_text ''@a'' ''ACGTACGT'' ''########'' @
                      record_text ''@c'' ''TTGCATGA'' ''########'',
        r2_filtered = record_text ''@a'' ''ACGTACGT'' ''########'' @
                      record_text ''@c'' ''TTGCATGA'' ''########'',
        logged = [], closed = [R1i, R2i, R1o, R2o]\<rparr>"
proof -
  have i: "include_func_r1 (default_globals 5) = Std_include"
    "include_func_r2 (default_globals 5) = Std_include"
    by (simp_all add: default_globals_def)
  have g: "(default_globals 5)\<lparr>check_func := Std_check_read\<rparr> = default_globals 5"
    by (simp add: default_globals_def)
  from refilter_keeps_all [OF i, of "Some three_reads" "Some three_reads"]
    three_reads_filtered
  show ?thesis by (simp add: g)
qed

end
